theory Spec2Isabelle
  imports Main "HOL-Library.Sublist" "HOL-Library.List_Lexorder" "HOL-Library.Char_ord"
begin

section \<open>Strings and the path normalizer (lib/fileTree)\<close>

text \<open>
  A path is a \<^typ>\<open>string\<close>: the UTF-8 bytes of the JavaScript string. Slash,
  backslash, dollar and the hexadecimal digits are single bytes, and no byte of a
  multi-byte character equals one of them.

  \<open>String.prototype.trim\<close> removes the white space and line terminator characters of
  ECMAScript from both ends: U+0009 to U+000D, U+0020, U+00A0, U+1680, U+2000 to U+200A,
  U+2028, U+2029, U+202F, U+205F, U+3000 and U+FEFF. \<open>whiteSpaces\<close> lists their
  UTF-8 encodings; \<open>stripLeading\<close> removes such characters from the front of a string
  one at a time, and \<open>trimEnd\<close> does the same from the back.
\<close>

definition whiteSpaces :: "string list" where
  "whiteSpaces =
     [[CHR 0x09], [CHR 0x0A], [CHR 0x0B], [CHR 0x0C], [CHR 0x0D], [CHR 0x20],
      [CHR 0xC2, CHR 0xA0],
      [CHR 0xE1, CHR 0x9A, CHR 0x80],
      [CHR 0xE2, CHR 0x80, CHR 0x80], [CHR 0xE2, CHR 0x80, CHR 0x81],
      [CHR 0xE2, CHR 0x80, CHR 0x82], [CHR 0xE2, CHR 0x80, CHR 0x83],
      [CHR 0xE2, CHR 0x80, CHR 0x84], [CHR 0xE2, CHR 0x80, CHR 0x85],
      [CHR 0xE2, CHR 0x80, CHR 0x86], [CHR 0xE2, CHR 0x80, CHR 0x87],
      [CHR 0xE2, CHR 0x80, CHR 0x88], [CHR 0xE2, CHR 0x80, CHR 0x89],
      [CHR 0xE2, CHR 0x80, CHR 0x8A],
      [CHR 0xE2, CHR 0x80, CHR 0xA8], [CHR 0xE2, CHR 0x80, CHR 0xA9],
      [CHR 0xE2, CHR 0x80, CHR 0xAF],
      [CHR 0xE2, CHR 0x81, CHR 0x9F],
      [CHR 0xE3, CHR 0x80, CHR 0x80],
      [CHR 0xEF, CHR 0xBB, CHR 0xBF]]"

function stripLeading :: "string list \<Rightarrow> string \<Rightarrow> string" where
  "stripLeading tokens s =
     (case List.find (\<lambda>w. w \<noteq> [] \<and> prefix w s) tokens of
        None \<Rightarrow> s
      | Some w \<Rightarrow> stripLeading tokens (drop (length w) s))"
  by pat_completeness auto
termination
proof (relation "measure (\<lambda>(tokens, s). length s)")
  show "wf (measure (\<lambda>(tokens, s). length s))" by simp
next
  fix tokens :: "string list" and s w :: string
  assume "List.find (\<lambda>w. w \<noteq> [] \<and> prefix w s) tokens = Some w"
  then have "w \<noteq> []" "prefix w s"
    by (auto simp: find_Some_iff)
  then have "s \<noteq> []" "0 < length w" by auto
  then show "((tokens, drop (length w) s), (tokens, s)) \<in> measure (\<lambda>(tokens, s). length s)"
    by simp
qed

declare stripLeading.simps [simp del]

definition trimStart :: "string \<Rightarrow> string" where
  "trimStart s = stripLeading whiteSpaces s"

definition trimEnd :: "string \<Rightarrow> string" where
  "trimEnd s = rev (stripLeading (map rev whiteSpaces) (rev s))"

definition trim :: "string \<Rightarrow> string" where
  "trim s = trimEnd (trimStart s)"

text \<open>\<open>value.replace(/\\/g, '/')\<close>: every backslash becomes a slash.\<close>

definition replaceBackslashes :: "string \<Rightarrow> string" where
  "replaceBackslashes s = map (\<lambda>c. if c = CHR 0x5C then CHR ''/'' else c) s"

text \<open>\<open>value.replace(/\/+/g, '/')\<close>: every maximal run of slashes becomes one slash.\<close>

fun collapseSlashes :: "string \<Rightarrow> string" where
  "collapseSlashes [] = []"
| "collapseSlashes [c] = [c]"
| "collapseSlashes (c # d # s) =
     (if c = CHR ''/'' \<and> d = CHR ''/'' then collapseSlashes (d # s)
      else c # collapseSlashes (d # s))"

definition normalizePath :: "string \<Rightarrow> string" where
  "normalizePath v = collapseSlashes (replaceBackslashes (trim v))"

text \<open>\<open>s.split(sep)\<close> for a one-character separator; the empty string splits into \<open>['']\<close>.\<close>

fun split :: "char \<Rightarrow> string \<Rightarrow> string list" where
  "split sep [] = [[]]"
| "split sep (c # s) =
     (if c = sep then [] # split sep s
      else (case split sep s of
              [] \<Rightarrow> [[c]]
            | seg # segs \<Rightarrow> (c # seg) # segs))"

text \<open>\<open>filter(Boolean)\<close> on strings keeps the non-empty ones.\<close>

definition filterBoolean :: "string list \<Rightarrow> string list" where
  "filterBoolean segs = filter (\<lambda>s. s \<noteq> []) segs"

definition stripRootPrefix :: "string list \<Rightarrow> string list" where
  "stripRootPrefix segments =
     (case segments of
        [] \<Rightarrow> segments
      | s # rest \<Rightarrow> if s = ''root'' then rest else segments)"

definition toComparableSegments :: "string \<Rightarrow> string list" where
  "toComparableSegments v =
     stripRootPrefix (filterBoolean (map trim (split CHR ''/'' (normalizePath v))))"

datatype PathRelation = Same | Ancestor | Descendant | Disjoint

text \<open>
  \<open>xs[i]\<close>: reading an array outside its bounds does not raise, it gives
  \<open>undefined\<close> (\<open>None\<close>).
\<close>

definition arrayGet :: "'a list \<Rightarrow> nat \<Rightarrow> 'a option" where
  "arrayGet xs i = (if i < length xs then Some (xs ! i) else None)"

text \<open>
  The \<open>for\<close> loop of \<open>getPathRelation\<close>: \<open>True\<close> when the loop returns
  \<open>'disjoint'\<close> at some index from \<open>i\<close> on, \<open>False\<close> when it runs to \<open>minLen\<close>.
\<close>

function segmentsDiffer :: "string list \<Rightarrow> string list \<Rightarrow> nat \<Rightarrow> nat \<Rightarrow> bool" where
  "segmentsDiffer aSegs bSegs minLen i =
     (if i < minLen
      then (if arrayGet aSegs i \<noteq> arrayGet bSegs i then True
            else segmentsDiffer aSegs bSegs minLen (Suc i))
      else False)"
  by pat_completeness auto
termination
  by (relation "measure (\<lambda>(aSegs, bSegs, minLen, i). minLen - i)") auto

declare segmentsDiffer.simps [simp del]

definition getPathRelation :: "string \<Rightarrow> string \<Rightarrow> PathRelation" where
  "getPathRelation a b =
     (let aSegs = toComparableSegments a;
          bSegs = toComparableSegments b
      in if aSegs = [] \<or> bSegs = [] then Disjoint
         else let minLen = min (length aSegs) (length bSegs)
              in if segmentsDiffer aSegs bSegs minLen 0 then Disjoint
                 else if length aSegs = length bSegs then Same
                 else if length aSegs < length bSegs then Ancestor
                 else Descendant)"


text \<open>
  \<open>isAtOrDownstreamOfAnyFolderPath\<close> computes the segments of both arguments with the
  expression that \<open>toComparableSegments\<close> abbreviates; its inner loop over the ancestor's
  segments is \<open>segmentsDiffer\<close> run to \<open>ancSegs.length\<close>, and the outer loop returns
  \<open>true\<close> at the first ancestor path that matches.
\<close>

definition isAtOrDownstreamOfAnyFolderPath :: "string \<Rightarrow> string list \<Rightarrow> bool" where
  "isAtOrDownstreamOfAnyFolderPath path ancestorPaths =
     (let pathSegs = toComparableSegments path
      in if pathSegs = [] then False
         else list_ex (\<lambda>a.
                let ancSegs = toComparableSegments a
                in ancSegs \<noteq> [] \<and> \<not> length pathSegs < length ancSegs
                   \<and> \<not> segmentsDiffer pathSegs ancSegs (length ancSegs) 0) ancestorPaths)"

text \<open>
  \<open>decodeStandardName\<close> replaces every \<open>$XX\<close> (two hexadecimal digits) by the character
  with that code, scanning from the left; \<open>fromCharCode\<close> gives the UTF-8 bytes of a code
  below 256.
\<close>

definition isHexDigit :: "char \<Rightarrow> bool" where
  "isHexDigit c =
     ((CHR ''0'' \<le> c \<and> c \<le> CHR ''9'') \<or> (CHR ''a'' \<le> c \<and> c \<le> CHR ''f'')
      \<or> (CHR ''A'' \<le> c \<and> c \<le> CHR ''F''))"

definition hexValue :: "char \<Rightarrow> nat" where
  "hexValue c =
     (if CHR ''0'' \<le> c \<and> c \<le> CHR ''9'' then of_char c - 48
      else if CHR ''a'' \<le> c \<and> c \<le> CHR ''f'' then of_char c - 87
      else of_char c - 55)"

definition fromCharCode :: "nat \<Rightarrow> string" where
  "fromCharCode n =
     (if n < 128 then [char_of n]
      else [char_of (192 + n div 64), char_of (128 + n mod 64)])"

fun decodeStandardName :: "string \<Rightarrow> string" where
  "decodeStandardName (c # h1 # h2 # s) =
     (if c = CHR ''$'' \<and> isHexDigit h1 \<and> isHexDigit h2
      then fromCharCode (16 * hexValue h1 + hexValue h2) @ decodeStandardName s
      else c # decodeStandardName (h1 # h2 # s))"
| "decodeStandardName (c # s) = c # decodeStandardName s"
| "decodeStandardName [] = []"

section \<open>Sets, sorting and the locale comparison\<close>

text \<open>
  A JavaScript \<open>Set\<close> iterates in insertion order: it is a duplicate-free list, \<open>add\<close>
  appends an element that is not yet present, and \<open>Array.from(new Set(xs))\<close> keeps the first
  occurrence of every element.
\<close>

definition setAdd :: "'a list \<Rightarrow> 'a \<Rightarrow> 'a list" where
  "setAdd s x = (if x \<in> set s then s else s @ [x])"

definition newSet :: "'a list \<Rightarrow> 'a list" where
  "newSet xs = foldl setAdd [] xs"

text \<open>
  \<open>xs.sort(cmp)\<close> is a stable sort: insertion sort with the comparator. The comparator
  \<open>(a, b) => a.localeCompare(b)\<close> depends on the host's locale; it is the parameter
  \<open>lc\<close> of every function that sorts.
\<close>

fun insertSorted :: "('a \<Rightarrow> 'a \<Rightarrow> int) \<Rightarrow> 'a \<Rightarrow> 'a list \<Rightarrow> 'a list" where
  "insertSorted cmp x [] = [x]"
| "insertSorted cmp x (y # ys) =
     (if cmp x y \<le> 0 then x # y # ys else y # insertSorted cmp x ys)"

definition sortWith :: "('a \<Rightarrow> 'a \<Rightarrow> int) \<Rightarrow> 'a list \<Rightarrow> 'a list" where
  "sortWith cmp xs = foldr (insertSorted cmp) xs []"

text \<open>The comparators this development asks of \<open>localeCompare\<close>: a total preorder.\<close>

definition totalPreorder :: "('a \<Rightarrow> 'a \<Rightarrow> int) \<Rightarrow> bool" where
  "totalPreorder cmp =
     ((\<forall>a b. cmp a b \<le> 0 \<or> cmp b a \<le> 0)
      \<and> (\<forall>a b c. cmp a b \<le> 0 \<longrightarrow> cmp b c \<le> 0 \<longrightarrow> cmp a c \<le> 0))"

text \<open>A concrete comparator for evaluation: the order of the bytes.\<close>

definition byteCompare :: "string \<Rightarrow> string \<Rightarrow> int" where
  "byteCompare a b = (if a < b then - 1 else if a = b then 0 else 1)"

section \<open>The keys of the folder tree (lib/fileTree)\<close>

text \<open>
  \<open>splitFolderSegments\<close> gives the folder segments of a point path: its normalized
  segments without the last one. \<open>buildFolderTreeFromPaths\<close> walks these segments from
  the key \<open>root\<close> and gives every folder the key of its parent followed by a slash and
  the segment; \<open>pathKeys\<close> lists the keys of one walk and \<open>folderTreeKeys\<close> the
  keys of the map \<open>nodeByKey\<close> once all paths are inserted. These keys are the paths
  of the nodes of the graph, the only paths a selection can hold.
\<close>

definition splitFolderSegments :: "string \<Rightarrow> string list" where
  "splitFolderSegments pathValue =
     (let normalized = normalizePath pathValue
      in if normalized = [] then []
         else let rawSegments = filterBoolean (map trim (split CHR ''/'' normalized))
              in if length rawSegments \<le> 1 then [] else butlast rawSegments)"

fun pathKeys :: "string \<Rightarrow> string list \<Rightarrow> string list" where
  "pathKeys currentKey [] = []"
| "pathKeys currentKey (seg # segments) =
     (let nextKey = currentKey @ ''/'' @ seg
      in nextKey # pathKeys nextKey segments)"

definition folderTreeKeys :: "string list \<Rightarrow> string list" where
  "folderTreeKeys paths =
     newSet (''root'' # concat (map (\<lambda>p. pathKeys ''root'' (splitFolderSegments p)) paths))"

section \<open>Application state (App)\<close>

text \<open>
  The state of the \<open>App\<close> component that the device engine reads and writes. Arrays
  are lists; \<open>deviceNameByPath\<close> and \<open>openReassignGroups\<close> are objects used as
  dictionaries of their own properties, modelled as maps. The CSV text, the chosen columns
  and the parsed rows are arguments of the export; layout and dialog state is left out.
\<close>

record ReassignmentGroup =
  fromDevicePath :: "string option"
  toDevicePath :: "string option"
  pointPaths :: "string list"

record PendingDeviceConflict =
  toAdd :: "string list"
  toRemove :: "string list"
  droppedFromSelection :: "string list"
  upstreamConflicts :: "string list"
  downstreamConflicts :: "string list"
  reassignmentGroups :: "ReassignmentGroup list"

record MergedDevice =
  id_md :: string
  name_md :: string
  memberPaths :: "string list"

record PendingMerge =
  memberPaths_pm :: "string list"
  suggestedName :: string

record PointRecord =
  path_pt :: string
  type_pt :: string

record AppState =
  points :: "PointRecord list"
  devicePaths :: "string list"
  mergedDevices :: "MergedDevice list"
  deviceNameByPath :: "string \<rightharpoonup> string"
  selectedPaths :: "string list"
  hiddenFolderPaths :: "string list"
  pendingConflict :: "PendingDeviceConflict option"
  openReassignGroups :: "string \<rightharpoonup> bool"
  pendingMerge :: "PendingMerge option"
  mergeName :: string

subsection \<open>Effects that depend on \<open>devicePaths\<close>\<close>

text \<open>
  Two effects run after every update of \<open>devicePaths\<close>: merged groups lose the members
  that are no longer devices (a group left without members is deleted), and name overrides
  of removed devices are deleted.
\<close>

definition pruneMergedStep ::
  "string list \<Rightarrow> MergedDevice list \<times> bool \<Rightarrow> MergedDevice \<Rightarrow> MergedDevice list \<times> bool" where
  "pruneMergedStep deviceSet acc md =
     (let kept = filter (\<lambda>p. p \<in> set deviceSet) (memberPaths md)
      in if kept = [] then (fst acc, True)
         else (fst acc @ [md\<lparr>memberPaths := kept\<rparr>],
               snd acc \<or> length kept \<noteq> length (memberPaths md)))"

definition pruneMergedDevices :: "string list \<Rightarrow> MergedDevice list \<Rightarrow> MergedDevice list" where
  "pruneMergedDevices deviceSet prev =
     (let r = foldl (pruneMergedStep deviceSet) ([], False) prev
      in if snd r then fst r else prev)"

definition pruneNameOverrides :: "string list \<Rightarrow> (string \<rightharpoonup> string) \<Rightarrow> (string \<rightharpoonup> string)" where
  "pruneNameOverrides deviceSet prev = prev |` set deviceSet"

definition devicePathsEffects :: "AppState \<Rightarrow> AppState" where
  "devicePathsEffects st =
     st\<lparr>mergedDevices := pruneMergedDevices (devicePaths st) (mergedDevices st),
        deviceNameByPath := pruneNameOverrides (devicePaths st) (deviceNameByPath st)\<rparr>"

subsection \<open>Device names\<close>

definition mergedNameByPath :: "MergedDevice list \<Rightarrow> (string \<rightharpoonup> string)" where
  "mergedNameByPath mds =
     foldl (\<lambda>m md. let name = trim (name_md md)
                    in if name = [] then m
                       else foldl (\<lambda>m p. m(p \<mapsto> name)) m (memberPaths md))
           Map.empty mds"

definition displayDevicePath :: "string \<Rightarrow> string" where
  "displayDevicePath p = (if prefix ''root/'' p then drop (length ''root/'') p else p)"

text \<open>
  \<open>x && x.trim()\<close> for the result of \<open>Map.get\<close>: the trimmed string when \<open>x\<close> is
  defined and not blank.
\<close>

definition trimmedIfPresent :: "string option \<Rightarrow> string option" where
  "trimmedIfPresent x =
     (case x of
        None \<Rightarrow> None
      | Some v \<Rightarrow> if v \<noteq> [] \<and> trim v \<noteq> [] then Some (trim v) else None)"

text \<open>
  \<open>obj[key]\<close> on a plain object (\<open>deviceNameByPath\<close>, a parsed row): the object's own
  entry when it has one; otherwise, for the property names of \<open>Object.prototype\<close>, the
  inherited function or object; otherwise \<open>undefined\<close>. Calling \<open>trim\<close> on an
  inherited value raises a \<open>TypeError\<close>.
\<close>

datatype error = TypeError

datatype property = Undefined | StringValue string | Inherited

definition objectPrototypeKeys :: "string list" where
  "objectPrototypeKeys =
     [''constructor'', ''__defineGetter__'', ''__defineSetter__'', ''hasOwnProperty'',
      ''__lookupGetter__'', ''__lookupSetter__'', ''isPrototypeOf'', ''propertyIsEnumerable'',
      ''toString'', ''valueOf'', ''__proto__'', ''toLocaleString'']"

definition getProperty :: "(string \<rightharpoonup> string) \<Rightarrow> string \<Rightarrow> property" where
  "getProperty obj key =
     (case obj key of
        Some v \<Rightarrow> StringValue v
      | None \<Rightarrow> if key \<in> set objectPrototypeKeys then Inherited else Undefined)"

text \<open>\<open>x && x.trim()\<close> for a property: the trimmed string when it is not blank.\<close>

definition trimmedProperty :: "property \<Rightarrow> error + string option" where
  "trimmedProperty x =
     (case x of
        Undefined \<Rightarrow> Inr None
      | StringValue v \<Rightarrow> Inr (if v \<noteq> [] \<and> trim v \<noteq> [] then Some (trim v) else None)
      | Inherited \<Rightarrow> Inl TypeError)"

definition displayDeviceName :: "AppState \<Rightarrow> string \<Rightarrow> error + string" where
  "displayDeviceName st p =
     (case trimmedIfPresent (mergedNameByPath (mergedDevices st) p) of
        Some mergedName \<Rightarrow> Inr mergedName
      | None \<Rightarrow>
          (case trimmedProperty (getProperty (deviceNameByPath st) p) of
             Inl e \<Rightarrow> Inl e
           | Inr (Some override) \<Rightarrow> Inr override
           | Inr None \<Rightarrow>
               (let shown = displayDevicePath p;
                    raw = (case split CHR ''/'' shown of [] \<Rightarrow> shown | segs \<Rightarrow> last segs)
                in Inr (decodeStandardName raw))))"

subsection \<open>Ownership\<close>

text \<open>The depth \<open>computeOwnerDevice\<close> gives a device: \<open>d.split('/').filter(Boolean).length\<close>.\<close>

definition deviceDepth :: "string \<Rightarrow> nat" where
  "deviceDepth d = length (filterBoolean (split CHR ''/'' d))"

fun ownerLoop :: "string \<Rightarrow> string list \<Rightarrow> (string \<times> nat) option \<Rightarrow> (string \<times> nat) option" where
  "ownerLoop pointPath [] best = best"
| "ownerLoop pointPath (d # ds) best =
     (let rel = getPathRelation d pointPath
      in if rel \<noteq> Ancestor \<and> rel \<noteq> Same then ownerLoop pointPath ds best
         else let depth = deviceDepth d
              in ownerLoop pointPath ds
                   (case best of
                      None \<Rightarrow> Some (d, depth)
                    | Some b \<Rightarrow> if depth > snd b then Some (d, depth) else best))"

definition computeOwnerDevice :: "string \<Rightarrow> string list \<Rightarrow> string option" where
  "computeOwnerDevice pointPath devices = map_option fst (ownerLoop pointPath devices None)"


subsection \<open>Device-set updates\<close>

definition addDevices :: "string list \<Rightarrow> AppState \<Rightarrow> AppState" where
  "addDevices pathsToAdd st =
     (if pathsToAdd = [] then st
      else devicePathsEffects
             (st\<lparr>devicePaths := foldl setAdd (newSet (devicePaths st)) pathsToAdd\<rparr>))"

definition applyDeviceChange :: "string list \<Rightarrow> string list \<Rightarrow> AppState \<Rightarrow> AppState" where
  "applyDeviceChange nextAdd nextRemove st =
     devicePathsEffects
       (st\<lparr>devicePaths :=
             foldl setAdd (newSet (filter (\<lambda>p. p \<notin> set nextRemove) (devicePaths st))) nextAdd\<rparr>)"

definition removeDevices :: "string list \<Rightarrow> AppState \<Rightarrow> AppState" where
  "removeDevices pathsToRemove st =
     (if pathsToRemove = [] then st
      else devicePathsEffects
             (st\<lparr>devicePaths := filter (\<lambda>p. p \<notin> set pathsToRemove) (devicePaths st)\<rparr>))"

subsection \<open>Reassignment groups\<close>

text \<open>The right arrow (U+2192) and the empty-set sign (U+2205) of the group keys.\<close>

definition rightArrow :: string where
  "rightArrow = [CHR 0xE2, CHR 0x86, CHR 0x92]"

definition emptySetSign :: string where
  "emptySetSign = [CHR 0xE2, CHR 0x88, CHR 0x85]"

definition orElse :: "string option \<Rightarrow> string \<Rightarrow> string" where
  "orElse x d = (case x of None \<Rightarrow> d | Some v \<Rightarrow> v)"

text \<open>
  \<open>groupMap\<close> is a \<open>Map\<close> from the key string to \<open>{ from, to, set }\<close>, in insertion
  order.
\<close>

type_synonym groupMap = "(string \<times> string option \<times> string option \<times> string list) list"

definition groupMapAdd ::
  "groupMap \<Rightarrow> string \<Rightarrow> string option \<Rightarrow> string option \<Rightarrow> string \<Rightarrow> groupMap" where
  "groupMapAdd m key from to p =
     (case map_of m key of
        None \<Rightarrow> m @ [(key, from, to, [p])]
      | Some g \<Rightarrow>
          map (\<lambda>e. if fst e = key
                    then (fst e, fst (snd e), fst (snd (snd e)), setAdd (snd (snd (snd e))) p)
                    else e) m)"

definition reassignmentStep :: "string list \<Rightarrow> string list \<Rightarrow> groupMap \<Rightarrow> PointRecord \<Rightarrow> groupMap" where
  "reassignmentStep currentDevices nextDevices m pt =
     (let from = computeOwnerDevice (path_pt pt) currentDevices;
          to = computeOwnerDevice (path_pt pt) nextDevices
      in if from = to then m
         else if from = None \<and> to \<noteq> None then m
         else if from \<noteq> None \<and> to = None then m
         else groupMapAdd m (orElse from emptySetSign @ rightArrow @ orElse to emptySetSign)
                from to (path_pt pt))"

definition groupSortKey :: "ReassignmentGroup \<Rightarrow> string" where
  "groupSortKey g = orElse (fromDevicePath g) [] @ rightArrow @ orElse (toDevicePath g) []"

definition computeReassignmentGroups ::
  "(string \<Rightarrow> string \<Rightarrow> int) \<Rightarrow> PointRecord list \<Rightarrow> string list \<Rightarrow> string list
     \<Rightarrow> ReassignmentGroup list" where
  "computeReassignmentGroups lc pts currentDevices nextDevices =
     sortWith (\<lambda>a b. lc (groupSortKey a) (groupSortKey b))
       (map (\<lambda>e. \<lparr>fromDevicePath = fst (snd e), toDevicePath = fst (snd (snd e)),
                   pointPaths = sortWith lc (snd (snd (snd e)))\<rparr>)
            (foldl (reassignmentStep currentDevices nextDevices) [] pts))"

subsection \<open>The conflict planner\<close>

definition isAncestorOfAnotherSelected :: "string list \<Rightarrow> string \<Rightarrow> bool" where
  "isAncestorOfAnotherSelected selectionUnique candidate =
     list_ex (\<lambda>other. candidate \<noteq> other \<and> getPathRelation candidate other = Ancestor)
       selectionUnique"

definition selectionDropped :: "string list \<Rightarrow> string list" where
  "selectionDropped selectionUnique =
     filter (isAncestorOfAnotherSelected selectionUnique) selectionUnique"

definition selectionToAdd :: "string list \<Rightarrow> string list" where
  "selectionToAdd selectionUnique =
     filter (\<lambda>c. \<not> isAncestorOfAnotherSelected selectionUnique c) selectionUnique"

text \<open>
  The double loop over the existing devices and the kept candidates fills three sets:
  upstream conflicts, downstream conflicts and the paths to remove.
\<close>

definition conflictStep ::
  "string \<Rightarrow> string list \<times> string list \<times> string list \<Rightarrow> string
     \<Rightarrow> string list \<times> string list \<times> string list" where
  "conflictStep existing acc incoming =
     (let rel = getPathRelation existing incoming
      in if rel = Ancestor
         then (setAdd (fst acc) existing, fst (snd acc), setAdd (snd (snd acc)) existing)
         else if rel = Descendant
         then (fst acc, setAdd (fst (snd acc)) existing, setAdd (snd (snd acc)) existing)
         else acc)"

definition conflictScan ::
  "string list \<Rightarrow> string list \<Rightarrow> string list \<times> string list \<times> string list" where
  "conflictScan existingPaths adds =
     foldl (\<lambda>acc existing. foldl (conflictStep existing) acc adds) ([], [], []) existingPaths"

definition markSelectionAsDevices :: "(string \<Rightarrow> string \<Rightarrow> int) \<Rightarrow> AppState \<Rightarrow> AppState" where
  "markSelectionAsDevices lc st =
     (if selectedPaths st = [] then st
      else
        let selectionUnique = newSet (selectedPaths st);
            dropped = selectionDropped selectionUnique;
            adds = selectionToAdd selectionUnique;
            sets = conflictScan (devicePaths st) adds;
            toRemoveSet = snd (snd sets);
            removes = sortWith lc toRemoveSet;
            nextDevices = newSet (filter (\<lambda>p. p \<notin> set toRemoveSet) (devicePaths st) @ adds);
            groups = computeReassignmentGroups lc (points st) (devicePaths st) nextDevices
        in if removes \<noteq> [] \<or> dropped \<noteq> []
           then st\<lparr>pendingConflict :=
                      Some \<lparr>toAdd = sortWith lc adds,
                            toRemove = removes,
                            droppedFromSelection = sortWith lc dropped,
                            upstreamConflicts = sortWith lc (fst sets),
                            downstreamConflicts = sortWith lc (fst (snd sets)),
                            reassignmentGroups = groups\<rparr>,
                    openReassignGroups := Map.empty\<rparr>
           else (addDevices adds st)\<lparr>selectedPaths := []\<rparr>)"

definition confirmDeviceConflict :: "AppState \<Rightarrow> AppState" where
  "confirmDeviceConflict st =
     (case pendingConflict st of
        None \<Rightarrow> st
      | Some plan \<Rightarrow>
          (applyDeviceChange (toAdd plan) (toRemove plan) st)
            \<lparr>pendingConflict := None, openReassignGroups := Map.empty, selectedPaths := []\<rparr>)"

definition cancelDeviceConflict :: "AppState \<Rightarrow> AppState" where
  "cancelDeviceConflict st = st\<lparr>pendingConflict := None, openReassignGroups := Map.empty\<rparr>"

subsection \<open>The merge manager\<close>

definition beginMergeDevices :: "string list \<Rightarrow> string \<Rightarrow> AppState \<Rightarrow> AppState" where
  "beginMergeDevices memberPathsToMerge suggested st =
     (let members = filterBoolean (newSet memberPathsToMerge)
      in if length members < 2 then st
         else st\<lparr>pendingMerge := Some \<lparr>memberPaths_pm = members, suggestedName = suggested\<rparr>,
                 mergeName := suggested\<rparr>)"

definition cancelMergeDevices :: "AppState \<Rightarrow> AppState" where
  "cancelMergeDevices st = st\<lparr>pendingMerge := None, mergeName := []\<rparr>"

text \<open>
  The identifier of a new group is built from the clock and a random number; it is the
  parameter \<open>newId\<close>.
\<close>

definition confirmMergeDevices ::
  "(string \<Rightarrow> string \<Rightarrow> int) \<Rightarrow> string \<Rightarrow> AppState \<Rightarrow> AppState" where
  "confirmMergeDevices lc newId st =
     (case pendingMerge st of
        None \<Rightarrow> st
      | Some pm \<Rightarrow>
          let name = trim (mergeName st)
          in if name = [] then st
             else
               let memberSet = newSet (memberPaths_pm pm);
                   kept = filter (\<lambda>md. \<not> list_ex (\<lambda>p. p \<in> set memberSet) (memberPaths md))
                            (mergedDevices st)
               in devicePathsEffects
                    (cancelMergeDevices
                       (st\<lparr>devicePaths := foldl setAdd (newSet (devicePaths st)) memberSet,
                           mergedDevices :=
                             kept @ [\<lparr>id_md = newId, name_md = name,
                                      memberPaths = sortWith lc memberSet\<rparr>]\<rparr>)))"

definition setSelection :: "string list \<Rightarrow> AppState \<Rightarrow> AppState" where
  "setSelection next st = st\<lparr>selectedPaths := newSet next\<rparr>"

subsection \<open>The hidden-folder normalizer\<close>

text \<open>
  \<open>treeFolderPathSet\<close> holds the path of every node of the current folder tree; it is
  empty when no tree is loaded, and then no candidate is checked against it.
\<close>

definition isCovered :: "string list \<Rightarrow> string \<Rightarrow> bool" where
  "isCovered candidates p =
     list_ex (\<lambda>other. p \<noteq> other
                \<and> (getPathRelation other p = Ancestor \<or> getPathRelation other p = Same))
       candidates"

definition normalizeHiddenFolderPaths ::
  "(string \<Rightarrow> string \<Rightarrow> int) \<Rightarrow> string list \<Rightarrow> string list \<Rightarrow> string list" where
  "normalizeHiddenFolderPaths lc treeFolderPathSet incoming =
     (let unique = newSet (filterBoolean (map trim incoming));
          candidates =
            sortWith lc
              (filter (\<lambda>p. if treeFolderPathSet \<noteq> [] then p \<in> set treeFolderPathSet else True)
                 (filter (\<lambda>p. p \<noteq> ''root'') unique));
          kept = filter (\<lambda>p. \<not> isCovered candidates p) candidates
      in sortWith lc kept)"

subsection \<open>The export projector\<close>

text \<open>
  A parsed row maps column names to cell values. \<open>exportDeviceName\<close> is the
  \<open>device_name\<close> the export computes for one row; \<open>cellText\<close> is
  \<open>(rec[selectedColumn] ?? '').trim()\<close>. The CSV parser and formatter are outside the
  model, so the export takes the parsed rows and returns the updated rows; \<open>mapRows\<close>
  is \<open>rows.map\<close> with a callback that may raise, which ends the export.
\<close>

definition cellText :: "property \<Rightarrow> error + string" where
  "cellText x =
     (case x of
        Undefined \<Rightarrow> Inr (trim [])
      | StringValue v \<Rightarrow> Inr (trim v)
      | Inherited \<Rightarrow> Inl TypeError)"

definition exportDeviceName ::
  "AppState \<Rightarrow> string \<Rightarrow> (string \<rightharpoonup> string) \<Rightarrow> error + string" where
  "exportDeviceName st selectedColumn rec =
     (case cellText (getProperty rec selectedColumn) of
        Inl e \<Rightarrow> Inl e
      | Inr pointPath \<Rightarrow>
          (let isHidden = (if pointPath \<noteq> [] \<and> hiddenFolderPaths st \<noteq> []
                           then isAtOrDownstreamOfAnyFolderPath pointPath (hiddenFolderPaths st)
                           else False);
               owner = (if \<not> isHidden \<and> pointPath \<noteq> []
                        then computeOwnerDevice pointPath (devicePaths st) else None)
           in if isHidden then Inr ''-''
              else (case owner of
                      None \<Rightarrow> Inr []
                    | Some ownerPath \<Rightarrow>
                        if ownerPath \<noteq> [] then displayDeviceName st ownerPath else Inr [])))"

fun mapRows :: "('a \<Rightarrow> error + 'b) \<Rightarrow> 'a list \<Rightarrow> error + 'b list" where
  "mapRows f [] = Inr []"
| "mapRows f (r # rs) =
     (case f r of
        Inl e \<Rightarrow> Inl e
      | Inr y \<Rightarrow> (case mapRows f rs of Inl e \<Rightarrow> Inl e | Inr ys \<Rightarrow> Inr (y # ys)))"

definition exportCsvWithDeviceNames ::
  "AppState \<Rightarrow> string option \<Rightarrow> string \<Rightarrow> (string \<rightharpoonup> string) list
     \<Rightarrow> error + (string \<rightharpoonup> string) list option" where
  "exportCsvWithDeviceNames st csvText selectedColumn rows =
     (if csvText = None \<or> csvText = Some [] \<or> selectedColumn = [] then Inr None
      else (case mapRows (\<lambda>rec. case exportDeviceName st selectedColumn rec of
                                    Inl e \<Rightarrow> Inl e
                                  | Inr device_name \<Rightarrow> Inr (rec(''device_name'' \<mapsto> device_name)))
                   rows of
              Inl e \<Rightarrow> Inl e
            | Inr updated \<Rightarrow> Inr (Some updated)))"

subsection \<open>User actions\<close>

datatype action =
    SetSelection "string list"
  | MarkSelectionAsDevices
  | ConfirmDeviceConflict
  | CancelDeviceConflict
  | RemoveDevices "string list"
  | BeginMergeDevices "string list" string
  | SetMergeName string
  | CancelMergeDevices
  | ConfirmMergeDevices string

fun dispatch :: "(string \<Rightarrow> string \<Rightarrow> int) \<Rightarrow> AppState \<Rightarrow> action \<Rightarrow> AppState" where
  "dispatch lc st (SetSelection next) = setSelection next st"
| "dispatch lc st MarkSelectionAsDevices = markSelectionAsDevices lc st"
| "dispatch lc st ConfirmDeviceConflict = confirmDeviceConflict st"
| "dispatch lc st CancelDeviceConflict = cancelDeviceConflict st"
| "dispatch lc st (RemoveDevices ps) = removeDevices ps st"
| "dispatch lc st (BeginMergeDevices ps suggested) = beginMergeDevices ps suggested st"
| "dispatch lc st (SetMergeName n) = st\<lparr>mergeName := n\<rparr>"
| "dispatch lc st CancelMergeDevices = cancelMergeDevices st"
| "dispatch lc st (ConfirmMergeDevices newId) = confirmMergeDevices lc newId st"

definition run :: "(string \<Rightarrow> string \<Rightarrow> int) \<Rightarrow> AppState \<Rightarrow> action list \<Rightarrow> AppState" where
  "run lc st acts = foldl (dispatch lc) st acts"

section \<open>Specification vocabulary\<close>

text \<open>The relation of two segment lists, as the specification words it.\<close>

definition relateSegments :: "string list \<Rightarrow> string list \<Rightarrow> PathRelation" where
  "relateSegments aSegs bSegs =
     (if aSegs = [] \<or> bSegs = [] then Disjoint
      else if aSegs = bSegs then Same
      else if strict_prefix aSegs bSegs then Ancestor
      else if strict_prefix bSegs aSegs then Descendant
      else Disjoint)"

text \<open>
  The segments of a path as the specification describes them: the path is trimmed and cut
  at every separator, a slash or a backslash; the pieces are trimmed and the empty ones
  dropped, so that repeated separators count once; a leading segment \<open>root\<close> is
  ignored.
\<close>

definition isSeparator :: "char \<Rightarrow> bool" where
  "isSeparator c = (c = CHR ''/'' \<or> c = CHR 0x5C)"

fun pieces :: "string \<Rightarrow> string list" where
  "pieces [] = [[]]"
| "pieces (c # s) =
     (if isSeparator c then [] # pieces s else (c # hd (pieces s)) # tl (pieces s))"

definition specSegments :: "string \<Rightarrow> string list" where
  "specSegments v =
     (let segs = filter (\<lambda>seg. seg \<noteq> []) (map trim (pieces (trim v)))
      in if segs \<noteq> [] \<and> hd segs = ''root'' then tl segs else segs)"

text \<open>A string starts with one of the given non-empty tokens.\<close>

definition hasLeading :: "string list \<Rightarrow> string \<Rightarrow> bool" where
  "hasLeading tokens s = list_ex (\<lambda>w. w \<noteq> [] \<and> prefix w s) tokens"

text \<open>A device qualifies as owner of a point: it is an ancestor of the point or the same path.\<close>

definition qualifies :: "string \<Rightarrow> string \<Rightarrow> bool" where
  "qualifies pointPath d =
     (getPathRelation d pointPath = Ancestor \<or> getPathRelation d pointPath = Same)"

text \<open>
  The depth of the specification: the number of non-empty segments after stripping the
  root.
\<close>

definition strippedDepth :: "string \<Rightarrow> nat" where
  "strippedDepth d = length (specSegments d)"

text \<open>
  The path key that \<open>buildFolderTreeFromPaths\<close> gives the folder with the segments
  \<open>segs\<close> (it appends \<open>/seg\<close> to the key \<open>root\<close> for every segment), and the
  segments \<open>splitFolderSegments\<close> produces: trimmed, not empty, without slash or
  backslash.
\<close>

definition treeKey :: "string list \<Rightarrow> string" where
  "treeKey segs = ''root'' @ concat (map (\<lambda>seg. CHR ''/'' # seg) segs)"

definition folderSegment :: "string \<Rightarrow> bool" where
  "folderSegment seg =
     (seg \<noteq> [] \<and> trim seg = seg \<and> CHR ''/'' \<notin> set seg \<and> CHR 0x5C \<notin> set seg)"

text \<open>
  A key of the folder tree: cut at the slashes it is \<open>root\<close> followed by folder
  segments.
\<close>

definition isTreeKey :: "string \<Rightarrow> bool" where
  "isTreeKey d =
     (case split CHR ''/'' d of
        [] \<Rightarrow> False
      | r # segs \<Rightarrow> r = ''root'' \<and> list_all folderSegment segs)"

text \<open>The Device-Set invariant: no path is an ancestor or a descendant of another.\<close>

definition deviceSetInvariant :: "string list \<Rightarrow> bool" where
  "deviceSetInvariant ds =
     list_all (\<lambda>a. list_all (\<lambda>b. getPathRelation a b \<noteq> Ancestor
                                 \<and> getPathRelation a b \<noteq> Descendant) ds) ds"

text \<open>Merge uniqueness: every path is a member of at most one group of the list.\<close>

definition mergeUnique :: "MergedDevice list \<Rightarrow> bool" where
  "mergeUnique mds = (\<forall>p. length (filter (\<lambda>md. p \<in> set (memberPaths md)) mds) \<le> 1)"

text \<open>
  What pruning leaves of a list of merged groups: every group restricted to the members
  that are devices, without the groups that have no member left.
\<close>

definition prunedGroups :: "string list \<Rightarrow> MergedDevice list \<Rightarrow> MergedDevice list" where
  "prunedGroups deviceSet mds =
     filter (\<lambda>md. memberPaths md \<noteq> [])
       (map (\<lambda>md. md\<lparr>memberPaths := filter (\<lambda>p. p \<in> set deviceSet) (memberPaths md)\<rparr>) mds)"

text \<open>
  The candidates of the hidden-folder normalizer: the trimmed, non-empty, deduplicated
  input without the root path and, when a folder tree is loaded, without the paths that
  are not in the tree.
\<close>

definition hiddenCandidates :: "string list \<Rightarrow> string list \<Rightarrow> string list" where
  "hiddenCandidates treeFolderPathSet incoming =
     filter (\<lambda>p. if treeFolderPathSet \<noteq> [] then p \<in> set treeFolderPathSet else True)
       (filter (\<lambda>p. p \<noteq> ''root'') (newSet (filterBoolean (map trim incoming))))"

text \<open>
  The merged groups that name a path: the groups with a non-blank name that have the path
  as a member, in list order.
\<close>

definition namingGroups :: "MergedDevice list \<Rightarrow> string \<Rightarrow> MergedDevice list" where
  "namingGroups mds p = filter (\<lambda>md. trim (name_md md) \<noteq> [] \<and> p \<in> set (memberPaths md)) mds"

text \<open>
  The value of a hexadecimal digit, in either case, and the name a row is exported with
  when its export does not fail.
\<close>

definition digitValue :: "char \<Rightarrow> nat option" where
  "digitValue h = map_of (zip ''0123456789abcdef'' [0..<16] @ zip ''ABCDEF'' [10..<16]) h"

definition exportedName :: "AppState \<Rightarrow> string \<Rightarrow> (string \<rightharpoonup> string) \<Rightarrow> string" where
  "exportedName st col rec = (case exportDeviceName st col rec of Inl e \<Rightarrow> [] | Inr n \<Rightarrow> n)"

text \<open>
  A point is reassigned between two device lists when it has an owner under both and the
  owners differ; \<open>ownerKey\<close> is the key string of its pair of owners.
\<close>

definition reassigned :: "string list \<Rightarrow> string list \<Rightarrow> string \<Rightarrow> bool" where
  "reassigned currentDevices nextDevices p =
     (computeOwnerDevice p currentDevices \<noteq> None \<and> computeOwnerDevice p nextDevices \<noteq> None
      \<and> computeOwnerDevice p currentDevices \<noteq> computeOwnerDevice p nextDevices)"

definition ownerKey :: "string list \<Rightarrow> string list \<Rightarrow> string \<Rightarrow> string" where
  "ownerKey currentDevices nextDevices p =
     orElse (computeOwnerDevice p currentDevices) emptySetSign @ rightArrow
       @ orElse (computeOwnerDevice p nextDevices) emptySetSign"

text \<open>
  Every entry of the group map has two owners, its key is the key string of these owners,
  every point of the entry has that key string, and no point is listed twice.
\<close>

definition groupMapOk :: "string list \<Rightarrow> string list \<Rightarrow> groupMap \<Rightarrow> bool" where
  "groupMapOk cur nxt m =
     (\<forall>e \<in> set m.
        fst (snd e) \<noteq> None \<and> fst (snd (snd e)) \<noteq> None
        \<and> fst e = orElse (fst (snd e)) emptySetSign @ rightArrow
                    @ orElse (fst (snd (snd e))) emptySetSign
        \<and> distinct (snd (snd (snd e)))
        \<and> (\<forall>p \<in> set (snd (snd (snd e))). ownerKey cur nxt p = fst e))"

text \<open>The points of all entries of a group map.\<close>

definition groupMapPoints :: "groupMap \<Rightarrow> string set" where
  "groupMapPoints m = (\<Union>e \<in> set m. set (snd (snd (snd e))))"

section \<open>Example states\<close>

definition exampleState :: "string list \<Rightarrow> string list \<Rightarrow> AppState" where
  "exampleState devs sel =
     \<lparr>points = [], devicePaths = devs, mergedDevices = [], deviceNameByPath = Map.empty,
      selectedPaths = sel, hiddenFolderPaths = [], pendingConflict = None,
      openReassignGroups = Map.empty, pendingMerge = None, mergeName = []\<rparr>"



definition overlappingMergeActions :: "action list" where
  "overlappingMergeActions =
     [BeginMergeDevices [''root/A'', ''root/A/B''] ''A'', ConfirmMergeDevices ''merged_1'']"

definition collidingFrom1 :: string where
  "collidingFrom1 = ''root/x''"

definition collidingTo1 :: string where
  "collidingTo1 = ''root/x/y'' @ rightArrow @ ''root/x'' @ rightArrow @ ''root''"

definition collidingFrom2 :: string where
  "collidingFrom2 = ''root/x'' @ rightArrow @ ''root/x/y''"

definition collidingTo2 :: string where
  "collidingTo2 = ''root/x'' @ rightArrow @ ''root''"

definition collidingPoint1 :: string where
  "collidingPoint1 = ''x/y'' @ rightArrow @ ''root/x'' @ rightArrow @ ''root/pt''"

definition collidingPoint2 :: string where
  "collidingPoint2 = ''x'' @ rightArrow @ ''root/x/y/pt''"

definition collidingState :: AppState where
  "collidingState =
     \<lparr>points = [\<lparr>path_pt = collidingPoint1, type_pt = ''Points''\<rparr>,
                \<lparr>path_pt = collidingPoint2, type_pt = ''Points''\<rparr>],
      devicePaths = [collidingFrom1, collidingFrom2],
      mergedDevices = [], deviceNameByPath = Map.empty,
      selectedPaths = [collidingTo1, collidingTo2], hiddenFolderPaths = [],
      pendingConflict = None, openReassignGroups = Map.empty, pendingMerge = None,
      mergeName = []\<rparr>"

definition exportExampleState :: AppState where
  "exportExampleState =
     \<lparr>points = [], devicePaths = [''root/H'', ''root/A'', ''root/B'', ''root/My$20Folder''],
      mergedDevices = [\<lparr>id_md = ''merged_1'', name_md = '' Plant '',
                         memberPaths = [''root/A'']\<rparr>],
      deviceNameByPath = [''root/A'' \<mapsto> ''Override A'', ''root/B'' \<mapsto> ''Override B''],
      selectedPaths = [], hiddenFolderPaths = [''root/H''],
      pendingConflict = None, openReassignGroups = Map.empty, pendingMerge = None,
      mergeName = []\<rparr>"

definition exportExampleRows :: "(string \<rightharpoonup> string) list" where
  "exportExampleRows =
     [[''path'' \<mapsto> ''root/H/anything ''],
      [''path'' \<mapsto> ''A/p1''],
      [''path'' \<mapsto> ''B/p2''],
      [''path'' \<mapsto> ''My$20Folder'' @ [CHR 0xC2, CHR 0xA0] @ ''/p3''],
      [''path'' \<mapsto> ''Q/p4''],
      [''other'' \<mapsto> ''x'']]"

section \<open>White space\<close>

lemma find_None_hasLeading:
  "List.find (\<lambda>w. w \<noteq> [] \<and> prefix w s) tokens = None \<longleftrightarrow> \<not> hasLeading tokens s"
  by (auto simp: find_None_iff hasLeading_def list_ex_iff)

lemma stripLeading_fixed: "\<not> hasLeading tokens s \<Longrightarrow> stripLeading tokens s = s"
  by (subst stripLeading.simps) (simp add: find_None_hasLeading [symmetric])

lemma stripLeading_no_leading: "\<not> hasLeading tokens (stripLeading tokens s)"
proof (induction tokens s rule: stripLeading.induct)
  case (1 tokens s)
  show ?case
  proof (cases "List.find (\<lambda>w. w \<noteq> [] \<and> prefix w s) tokens")
    case None
    then have "stripLeading tokens s = s" by (subst stripLeading.simps) simp
    with None show ?thesis by (simp add: find_None_hasLeading)
  next
    case (Some w)
    then have "stripLeading tokens s = stripLeading tokens (drop (length w) s)"
      by (subst stripLeading.simps) simp
    with "1.IH" [OF Some] show ?thesis by simp
  qed
qed

lemma stripLeading_suffix: "suffix (stripLeading tokens s) s"
proof (induction tokens s rule: stripLeading.induct)
  case (1 tokens s)
  show ?case
  proof (cases "List.find (\<lambda>w. w \<noteq> [] \<and> prefix w s) tokens")
    case None
    then have "stripLeading tokens s = s" by (subst stripLeading.simps) simp
    then show ?thesis by simp
  next
    case (Some w)
    then have "stripLeading tokens s = stripLeading tokens (drop (length w) s)"
      by (subst stripLeading.simps) simp
    with "1.IH" [OF Some] have "suffix (stripLeading tokens s) (drop (length w) s)" by simp
    then show ?thesis using suffix_drop suffix_order.order_trans by blast
  qed
qed

lemma stripLeading_idem: "stripLeading tokens (stripLeading tokens s) = stripLeading tokens s"
  by (simp add: stripLeading_fixed stripLeading_no_leading)

lemma stripLeading_Nil: "stripLeading tokens [] = []"
  by (rule stripLeading_fixed) (auto simp: hasLeading_def list_ex_iff)

lemma hasLeading_prefix: "hasLeading tokens u \<Longrightarrow> prefix u t \<Longrightarrow> hasLeading tokens t"
  unfolding hasLeading_def list_ex_iff by (meson prefix_order.order_trans)

lemma trim_prefix_trimStart: "prefix (trim s) (trimStart s)"
proof -
  have "suffix (stripLeading (map rev whiteSpaces) (rev (trimStart s))) (rev (trimStart s))"
    by (rule stripLeading_suffix)
  then show ?thesis
    unfolding trim_def trimEnd_def by (metis suffix_to_prefix rev_rev_ident)
qed

lemma trimStart_trim: "trimStart (trim s) = trim s"
proof -
  have "\<not> hasLeading whiteSpaces (trimStart s)"
    unfolding trimStart_def by (rule stripLeading_no_leading)
  then have "\<not> hasLeading whiteSpaces (trim s)"
    using hasLeading_prefix [OF _ trim_prefix_trimStart] by blast
  then show ?thesis
    unfolding trimStart_def by (rule stripLeading_fixed)
qed

lemma trim_idem: "trim (trim s) = trim s"
proof -
  have "trim (trim s) = trimEnd (trim s)"
    by (subst trim_def) (simp add: trimStart_trim)
  also have "\<dots> = trim s"
    by (simp add: trim_def trimEnd_def stripLeading_idem)
  finally show ?thesis .
qed

lemma trim_Nil: "trim [] = []"
  by (simp add: trim_def trimEnd_def trimStart_def stripLeading_Nil)

lemma trim_fixed:
  assumes "\<not> hasLeading whiteSpaces s" and "\<not> hasLeading (map rev whiteSpaces) (rev s)"
  shows "trim s = s"
  using assms by (simp add: trim_def trimEnd_def trimStart_def stripLeading_fixed)

lemma trimmed_no_trailing:
  assumes "trim s = s"
  shows "\<not> hasLeading (map rev whiteSpaces) (rev s)"
proof -
  have "stripLeading (map rev whiteSpaces) (rev (trimStart s)) = rev s"
    using assms by (metis rev_rev_ident trim_def trimEnd_def)
  then show ?thesis
    using stripLeading_no_leading [of "map rev whiteSpaces" "rev (trimStart s)"] by simp
qed

lemma whiteSpaces_chars:
  "\<forall>w \<in> set whiteSpaces. w \<noteq> [] \<and> CHR ''/'' \<notin> set w \<and> CHR 0x5C \<notin> set w
      \<and> hd w \<noteq> CHR ''r'' \<and> last w \<noteq> CHR ''t''"
  by (simp add: whiteSpaces_def)

section \<open>The path relation\<close>

lemma segmentsDiffer_iff:
  assumes "minLen \<le> length aSegs" and "minLen \<le> length bSegs"
  shows "segmentsDiffer aSegs bSegs minLen i \<longleftrightarrow> (\<exists>j. i \<le> j \<and> j < minLen \<and> aSegs ! j \<noteq> bSegs ! j)"
  using assms
proof (induction aSegs bSegs minLen i rule: segmentsDiffer.induct)
  case (1 aSegs bSegs minLen i)
  show ?case
  proof (cases "i < minLen")
    case False
    then show ?thesis by (subst segmentsDiffer.simps) auto
  next
    case True
    then have get: "arrayGet aSegs i = Some (aSegs ! i)" "arrayGet bSegs i = Some (bSegs ! i)"
      using "1.prems" by (simp_all add: arrayGet_def)
    show ?thesis
    proof (cases "aSegs ! i \<noteq> bSegs ! i")
      case True
      with \<open>i < minLen\<close> show ?thesis by (subst segmentsDiffer.simps) (auto simp: get)
    next
      case False
      with \<open>i < minLen\<close> have "segmentsDiffer aSegs bSegs minLen i = segmentsDiffer aSegs bSegs minLen (Suc i)"
        by (subst segmentsDiffer.simps) (simp add: get)
      also have "\<dots> \<longleftrightarrow> (\<exists>j. Suc i \<le> j \<and> j < minLen \<and> aSegs ! j \<noteq> bSegs ! j)"
        using "1.IH" "1.prems" True False by (simp add: get)
      also have "\<dots> \<longleftrightarrow> (\<exists>j. i \<le> j \<and> j < minLen \<and> aSegs ! j \<noteq> bSegs ! j)"
        using False by (metis Suc_leD Suc_leI le_neq_implies_less)
      finally show ?thesis .
    qed
  qed
qed

lemma split_nonempty: "split sep s \<noteq> []"
  by (induction s) (auto split: list.splits)

lemma split_Cons:
  "split sep (c # s) =
     (if c = sep then [] # split sep s else (c # hd (split sep s)) # tl (split sep s))"
  using split_nonempty [of sep s] by (cases "split sep s") simp_all

lemma pieces_nonempty: "pieces s \<noteq> []"
  by (induction s) simp_all

lemma split_replaceBackslashes: "split CHR ''/'' (replaceBackslashes s) = pieces s"
proof (induction s)
  case Nil
  then show ?case by (simp add: replaceBackslashes_def)
next
  case (Cons c s)
  then have "split CHR ''/'' (map (\<lambda>c. if c = CHR 0x5C then CHR ''/'' else c) s) = pieces s"
    by (simp add: replaceBackslashes_def)
  then show ?case
    by (simp add: replaceBackslashes_def split_Cons isSeparator_def del: split.simps)
qed

lemma segments_hd_tl:
  assumes "xs \<noteq> []" and "ys \<noteq> []" and "hd xs = hd ys"
    and "filterBoolean (map trim (tl xs)) = filterBoolean (map trim (tl ys))"
  shows "filterBoolean (map trim xs) = filterBoolean (map trim ys)"
  using assms by (cases xs; cases ys) (simp_all add: filterBoolean_def)

lemma split_collapseSlashes:
  "hd (split CHR ''/'' (collapseSlashes t)) = hd (split CHR ''/'' t)
   \<and> filterBoolean (map trim (tl (split CHR ''/'' (collapseSlashes t))))
       = filterBoolean (map trim (tl (split CHR ''/'' t)))"
proof (induction t rule: collapseSlashes.induct)
  case 1
  then show ?case by simp
next
  case (2 c)
  then show ?case by simp
next
  case (3 c d s)
  show ?case
  proof (cases "c = CHR ''/'' \<and> d = CHR ''/''")
    case True
    with 3 show ?thesis
      by (simp add: split_Cons filterBoolean_def trim_Nil del: split.simps)
  next
    case False
    with 3 have ih: "hd (split CHR ''/'' (collapseSlashes (d # s))) = hd (split CHR ''/'' (d # s))"
      "filterBoolean (map trim (tl (split CHR ''/'' (collapseSlashes (d # s)))))
         = filterBoolean (map trim (tl (split CHR ''/'' (d # s))))"
      by simp_all
    have c: "collapseSlashes (c # d # s) = c # collapseSlashes (d # s)"
      using False by simp
    have all: "filterBoolean (map trim (split CHR ''/'' (collapseSlashes (d # s))))
          = filterBoolean (map trim (split CHR ''/'' (d # s)))"
      using split_nonempty split_nonempty ih by (rule segments_hd_tl)
    show ?thesis
    proof (cases "c = CHR ''/''")
      case True
      have "split CHR ''/'' (c # t) = [] # split CHR ''/'' t" for t
        using True by simp
      with all show ?thesis
        unfolding c by (simp del: split.simps)
    next
      case False
      then have "split CHR ''/'' (c # t) = (c # hd (split CHR ''/'' t)) # tl (split CHR ''/'' t)" for t
        by (simp add: split_Cons del: split.simps)
      with ih show ?thesis
        unfolding c by (simp del: split.simps)
    qed
  qed
qed

lemma segments_collapseSlashes:
  "filterBoolean (map trim (split CHR ''/'' (collapseSlashes t)))
     = filterBoolean (map trim (split CHR ''/'' t))"
  using split_nonempty split_nonempty
    split_collapseSlashes [THEN conjunct1] split_collapseSlashes [THEN conjunct2]
  by (rule segments_hd_tl)

lemma toComparableSegments_specSegments: "toComparableSegments v = specSegments v"
proof -
  have "filterBoolean (map trim (split CHR ''/'' (normalizePath v)))
      = filter (\<lambda>seg. seg \<noteq> []) (map trim (pieces (trim v)))"
    unfolding normalizePath_def segments_collapseSlashes split_replaceBackslashes
    by (simp add: filterBoolean_def)
  then show ?thesis
    unfolding toComparableSegments_def specSegments_def stripRootPrefix_def Let_def
    by (simp split: list.splits)
qed

lemma no_mismatch_iff_prefix:
  "(\<forall>j < min (length xs) (length ys). xs ! j = ys ! j) \<longleftrightarrow> prefix xs ys \<or> prefix ys xs"
proof
  assume h: "\<forall>j < min (length xs) (length ys). xs ! j = ys ! j"
  have "take (min (length xs) (length ys)) xs = take (min (length xs) (length ys)) ys"
    using h by (intro nth_take_lemma) auto
  then show "prefix xs ys \<or> prefix ys xs"
    by (metis min.cobounded1 min_def take_all take_is_prefix)
next
  assume "prefix xs ys \<or> prefix ys xs"
  then show "\<forall>j < min (length xs) (length ys). xs ! j = ys ! j"
    by (auto simp: prefix_def nth_append)
qed

lemma relate_by_length:
  assumes "prefix xs ys \<or> prefix ys xs"
  shows "(length xs = length ys \<longleftrightarrow> xs = ys)"
    and "(length xs < length ys \<longleftrightarrow> strict_prefix xs ys)"
    and "(length ys < length xs \<longleftrightarrow> strict_prefix ys xs)"
proof -
  from assms consider zs where "ys = xs @ zs" | zs where "xs = ys @ zs"
    unfolding prefix_def by blast
  then show "(length xs = length ys \<longleftrightarrow> xs = ys)"
    by cases auto
  from assms consider zs where "ys = xs @ zs" | zs where "xs = ys @ zs"
    unfolding prefix_def by blast
  then show "(length xs < length ys \<longleftrightarrow> strict_prefix xs ys)"
    by cases (auto simp: strict_prefix_def prefix_def)
  from assms consider zs where "ys = xs @ zs" | zs where "xs = ys @ zs"
    unfolding prefix_def by blast
  then show "(length ys < length xs \<longleftrightarrow> strict_prefix ys xs)"
    by cases (auto simp: strict_prefix_def prefix_def)
qed

lemma getPathRelation_segments:
  "getPathRelation a b = relateSegments (toComparableSegments a) (toComparableSegments b)"
proof -
  define xs where "xs = toComparableSegments a"
  define ys where "ys = toComparableSegments b"
  have d: "segmentsDiffer xs ys (min (length xs) (length ys)) 0 \<longleftrightarrow> \<not> (prefix xs ys \<or> prefix ys xs)"
    unfolding segmentsDiffer_iff [OF min.cobounded1 min.cobounded2]
    using no_mismatch_iff_prefix [of xs ys] by auto
  have g: "getPathRelation a b =
      (if xs = [] \<or> ys = [] then Disjoint
       else if segmentsDiffer xs ys (min (length xs) (length ys)) 0 then Disjoint
       else if length xs = length ys then Same
       else if length xs < length ys then Ancestor else Descendant)"
    unfolding getPathRelation_def Let_def xs_def ys_def by (rule refl)
  have "getPathRelation a b = relateSegments xs ys"
  proof (cases "prefix xs ys \<or> prefix ys xs")
    case False
    then have "\<not> strict_prefix xs ys" "\<not> strict_prefix ys xs" "xs \<noteq> ys"
      by (auto simp: strict_prefix_def)
    with False show ?thesis
      unfolding g relateSegments_def d by simp
  next
    case True
    note r = relate_by_length [OF True]
    have "length xs = length ys \<or> length xs < length ys \<or> length ys < length xs"
      by arith
    then show ?thesis
      unfolding g relateSegments_def d using True
      by (auto simp: r [symmetric])
  qed
  then show ?thesis by (simp only: xs_def ys_def)
qed

lemma relateSegments_Ancestor:
  "relateSegments xs ys = Ancestor \<longleftrightarrow> xs \<noteq> [] \<and> strict_prefix xs ys"
  by (auto simp: relateSegments_def)

lemma relateSegments_Descendant:
  "relateSegments xs ys = Descendant \<longleftrightarrow> ys \<noteq> [] \<and> strict_prefix ys xs"
  by (auto simp: relateSegments_def)

lemma relateSegments_Same:
  "relateSegments xs ys = Same \<longleftrightarrow> xs \<noteq> [] \<and> xs = ys"
  by (auto simp: relateSegments_def)

lemma getPathRelation_Ancestor:
  "getPathRelation a b = Ancestor \<longleftrightarrow>
     toComparableSegments a \<noteq> [] \<and> strict_prefix (toComparableSegments a) (toComparableSegments b)"
  by (simp add: getPathRelation_segments relateSegments_Ancestor)

lemma getPathRelation_Descendant:
  "getPathRelation a b = Descendant \<longleftrightarrow>
     toComparableSegments b \<noteq> [] \<and> strict_prefix (toComparableSegments b) (toComparableSegments a)"
  by (simp add: getPathRelation_segments relateSegments_Descendant)

lemma getPathRelation_Same:
  "getPathRelation a b = Same \<longleftrightarrow>
     toComparableSegments a \<noteq> [] \<and> toComparableSegments a = toComparableSegments b"
  by (simp add: getPathRelation_segments relateSegments_Same)

lemma qualifies_iff:
  "qualifies pointPath d \<longleftrightarrow>
     toComparableSegments d \<noteq> [] \<and> prefix (toComparableSegments d) (toComparableSegments pointPath)"
  unfolding qualifies_def getPathRelation_Ancestor getPathRelation_Same
  by (auto simp: strict_prefix_def)

subsection \<open>White space around a path\<close>

lemma whiteSpaces_prefix_free:
  "\<forall>w \<in> set whiteSpaces. \<forall>t \<in> set whiteSpaces. prefix w t \<longrightarrow> w = t"
  by (simp add: whiteSpaces_def)

lemma whiteSpaces_suffix_free:
  "\<forall>w \<in> set (map rev whiteSpaces). \<forall>t \<in> set (map rev whiteSpaces). prefix w t \<longrightarrow> w = t"
  by (simp add: whiteSpaces_def)

lemma whiteSpaces_no_overlap:
  "\<forall>w \<in> set whiteSpaces. \<forall>t \<in> set whiteSpaces. w \<noteq> [] \<and> hd w \<notin> set (tl t)"
  by (simp add: whiteSpaces_def)

lemma find_token:
  assumes "w \<in> set tokens" and "w \<noteq> []"
    and "\<forall>x \<in> set tokens. \<forall>y \<in> set tokens. prefix x y \<longrightarrow> x = y"
  shows "List.find (\<lambda>x. x \<noteq> [] \<and> prefix x (w @ s)) tokens = Some w"
proof (cases "List.find (\<lambda>x. x \<noteq> [] \<and> prefix x (w @ s)) tokens")
  case None
  with assms(1,2) show ?thesis by (auto simp: find_None_iff)
next
  case (Some x)
  then have x: "x \<in> set tokens" "prefix x (w @ s)"
    by (auto simp: find_Some_iff)
  then have "prefix x w \<or> prefix w x"
    using prefix_same_cases [of x "w @ s" w] by simp
  with assms(1,3) x(1) have "x = w" by blast
  with Some show ?thesis by simp
qed

lemma stripLeading_token:
  assumes "w \<in> set tokens" and "w \<noteq> []"
    and "\<forall>x \<in> set tokens. \<forall>y \<in> set tokens. prefix x y \<longrightarrow> x = y"
  shows "stripLeading tokens (w @ s) = stripLeading tokens s"
  by (subst stripLeading.simps) (simp add: find_token [OF assms])

lemma trimStart_snoc:
  assumes "w \<in> set whiteSpaces"
  shows "trimStart (s @ w) = (if trimStart s = [] then [] else trimStart s @ w)"
  unfolding trimStart_def
proof (induction whiteSpaces s rule: stripLeading.induct)
  case (1 s)
  have wn: "w \<noteq> []" using assms whiteSpaces_no_overlap by blast
  show ?case
  proof (cases "List.find (\<lambda>x. x \<noteq> [] \<and> prefix x s) whiteSpaces")
    case (Some x)
    then have x: "x \<in> set whiteSpaces" "x \<noteq> []" "prefix x s"
      by (auto simp: find_Some_iff)
    then obtain r where s: "s = x @ r" by (auto simp: prefix_def)
    have a: "stripLeading whiteSpaces s = stripLeading whiteSpaces r"
      unfolding s using x(1,2) whiteSpaces_prefix_free by (rule stripLeading_token)
    have b: "stripLeading whiteSpaces (s @ w) = stripLeading whiteSpaces (r @ w)"
      unfolding s append_assoc using x(1,2) whiteSpaces_prefix_free by (rule stripLeading_token)
    have "drop (length x) s = r" by (simp add: s)
    with "1.hyps" [OF Some] show ?thesis
      unfolding a b by simp
  next
    case None
    then have fixed: "stripLeading whiteSpaces s = s"
      by (subst stripLeading.simps) simp
    show ?thesis
    proof (cases "s = []")
      case True
      have "stripLeading whiteSpaces (w @ []) = stripLeading whiteSpaces []"
        using assms wn whiteSpaces_prefix_free by (rule stripLeading_token)
      with True show ?thesis by (simp add: stripLeading_Nil)
    next
      case False
      have "\<not> hasLeading whiteSpaces (s @ w)"
      proof
        assume "hasLeading whiteSpaces (s @ w)"
        then obtain t where t: "t \<in> set whiteSpaces" "t \<noteq> []" "prefix t (s @ w)"
          by (auto simp: hasLeading_def list_ex_iff)
        from None t(1,2) have "\<not> prefix t s"
          by (auto simp: find_None_iff)
        with t(3) obtain r where r: "t = s @ r" "r \<noteq> []" "prefix r w"
          by (auto simp: prefix_append)
        from r(2,3) have "hd r = hd w"
          by (cases r; cases w) auto
        moreover from r(1,2) False have "hd r \<in> set (tl t)"
          by (cases s; cases r) auto
        ultimately show False
          using assms t(1) whiteSpaces_no_overlap by metis
      qed
      then have "stripLeading whiteSpaces (s @ w) = s @ w"
        by (rule stripLeading_fixed)
      with fixed False show ?thesis by simp
    qed
  qed
qed

lemma trim_leading_white_space:
  assumes "w \<in> set whiteSpaces"
  shows "trim (w @ s) = trim s"
proof -
  have "w \<noteq> []" using assms whiteSpaces_no_overlap by blast
  with assms have "trimStart (w @ s) = trimStart s"
    unfolding trimStart_def using whiteSpaces_prefix_free by (intro stripLeading_token)
  then show ?thesis by (simp add: trim_def)
qed

lemma trim_trailing_white_space:
  assumes "w \<in> set whiteSpaces"
  shows "trim (s @ w) = trim s"
proof -
  have wn: "rev w \<noteq> []" using assms whiteSpaces_no_overlap by auto
  have "trimEnd (u @ w) = trimEnd u" for u
  proof -
    have "rev w \<in> set (map rev whiteSpaces)" using assms by simp
    then have "stripLeading (map rev whiteSpaces) (rev w @ rev u)
        = stripLeading (map rev whiteSpaces) (rev u)"
      using wn whiteSpaces_suffix_free by (rule stripLeading_token)
    then show ?thesis by (simp add: trimEnd_def)
  qed
  then show ?thesis
    unfolding trim_def trimStart_snoc [OF assms]
    by (simp add: trimEnd_def stripLeading_Nil)
qed

lemma specSegments_padding:
  assumes "w \<in> set whiteSpaces"
  shows "specSegments (w @ v) = specSegments v" and "specSegments (v @ w) = specSegments v"
  using assms
  by (simp_all add: specSegments_def trim_leading_white_space trim_trailing_white_space)

subsection \<open>Backslashes and repeated slashes\<close>

lemma whiteSpaces_no_separator:
  "\<forall>w \<in> set whiteSpaces. CHR ''/'' \<notin> set w \<and> CHR 0x5C \<notin> set w"
  "\<forall>w \<in> set (map rev whiteSpaces). CHR ''/'' \<notin> set w \<and> CHR 0x5C \<notin> set w"
  using whiteSpaces_chars by auto

lemma prefix_replaceBackslashes:
  assumes "CHR ''/'' \<notin> set w" and "CHR 0x5C \<notin> set w"
  shows "prefix w (replaceBackslashes s) \<longleftrightarrow> prefix w s"
  using assms
proof (induction w arbitrary: s)
  case Nil
  then show ?case by simp
next
  case (Cons c w)
  show ?case
  proof (cases s)
    case Nil
    then show ?thesis by (simp add: replaceBackslashes_def)
  next
    case (Cons d r)
    have "(if d = CHR 0x5C then CHR ''/'' else d) = c \<longleftrightarrow> d = c"
      using Cons.prems by auto
    moreover have "prefix w (replaceBackslashes r) \<longleftrightarrow> prefix w r"
      using Cons.IH Cons.prems by simp
    ultimately show ?thesis
      using Cons by (auto simp: replaceBackslashes_def)
  qed
qed

lemma stripLeading_replaceBackslashes:
  assumes "\<forall>w \<in> set tokens. CHR ''/'' \<notin> set w \<and> CHR 0x5C \<notin> set w"
  shows "stripLeading tokens (replaceBackslashes s) = replaceBackslashes (stripLeading tokens s)"
  using assms
proof (induction tokens s rule: stripLeading.induct)
  case (1 tokens s)
  have f: "List.find (\<lambda>w. w \<noteq> [] \<and> prefix w (replaceBackslashes s)) tokens
         = List.find (\<lambda>w. w \<noteq> [] \<and> prefix w s) tokens"
    using "1.prems" by (intro find_cong) (auto simp: prefix_replaceBackslashes)
  show ?case
  proof (cases "List.find (\<lambda>w. w \<noteq> [] \<and> prefix w s) tokens")
    case None
    then show ?thesis
      by (subst stripLeading.simps, subst (2) stripLeading.simps) (simp add: f)
  next
    case (Some w)
    have "drop (length w) (replaceBackslashes s) = replaceBackslashes (drop (length w) s)"
      by (simp add: replaceBackslashes_def drop_map)
    with "1.IH" [OF Some "1.prems"] Some show ?thesis
      by (subst stripLeading.simps, subst (2) stripLeading.simps) (simp add: f)
  qed
qed

lemma trim_replaceBackslashes: "trim (replaceBackslashes s) = replaceBackslashes (trim s)"
proof -
  have r: "rev (replaceBackslashes u) = replaceBackslashes (rev u)" for u
    by (simp add: replaceBackslashes_def rev_map)
  have "trimEnd (replaceBackslashes u) = replaceBackslashes (trimEnd u)" for u
    unfolding trimEnd_def r
    by (simp add: stripLeading_replaceBackslashes [OF whiteSpaces_no_separator(2)] r)
  then show ?thesis
    unfolding trim_def trimStart_def
    by (simp add: stripLeading_replaceBackslashes [OF whiteSpaces_no_separator(1)])
qed

lemma replaceBackslashes_idem: "replaceBackslashes (replaceBackslashes s) = replaceBackslashes s"
  by (simp add: replaceBackslashes_def)

lemma normalizePath_replaceBackslashes: "normalizePath (replaceBackslashes v) = normalizePath v"
  by (simp add: normalizePath_def trim_replaceBackslashes replaceBackslashes_idem)

lemma prefix_before_char:
  assumes "prefix w (a @ c # b)" and "c \<notin> set w"
  shows "prefix w a"
proof -
  from assms(1) have "prefix w a \<or> (\<exists>us. w = a @ us \<and> prefix us (c # b))"
    by (auto simp: prefix_append)
  then show ?thesis
  proof
    assume "\<exists>us. w = a @ us \<and> prefix us (c # b)"
    then obtain us where w: "w = a @ us" and "prefix us (c # b)" by blast
    with assms(2) have "us = []" by (cases us) auto
    with w show ?thesis by simp
  qed
qed

lemma stripLeading_before_char:
  assumes "\<forall>w \<in> set tokens. c \<notin> set w"
  shows "stripLeading tokens (x @ c # y) = stripLeading tokens x @ c # y"
  using assms
proof (induction tokens x rule: stripLeading.induct)
  case (1 tokens x)
  have f: "List.find (\<lambda>w. w \<noteq> [] \<and> prefix w (x @ c # y)) tokens
         = List.find (\<lambda>w. w \<noteq> [] \<and> prefix w x) tokens"
    using "1.prems" by (intro find_cong) (auto dest: prefix_before_char)
  show ?case
  proof (cases "List.find (\<lambda>w. w \<noteq> [] \<and> prefix w x) tokens")
    case None
    then show ?thesis
      by (subst stripLeading.simps, subst (2) stripLeading.simps) (simp add: f)
  next
    case (Some w)
    then have "prefix w x" by (auto simp: find_Some_iff)
    then have "drop (length w) (x @ c # y) = drop (length w) x @ c # y"
      by (auto simp: prefix_def)
    with "1.IH" [OF Some "1.prems"] Some show ?thesis
      by (subst stripLeading.simps, subst (2) stripLeading.simps) (simp add: f)
  qed
qed

lemma trimStart_before_slash: "trimStart (x @ CHR ''/'' # y) = trimStart x @ CHR ''/'' # y"
  unfolding trimStart_def using whiteSpaces_no_separator(1)
  by (intro stripLeading_before_char) blast

lemma trimEnd_after_slash: "trimEnd (u @ CHR ''/'' # y) = u @ CHR ''/'' # trimEnd y"
proof -
  have "stripLeading (map rev whiteSpaces) (rev y @ CHR ''/'' # rev u)
      = stripLeading (map rev whiteSpaces) (rev y) @ CHR ''/'' # rev u"
    using whiteSpaces_no_separator(2) by (intro stripLeading_before_char) blast
  then show ?thesis
    by (simp add: trimEnd_def)
qed

lemma trim_around_slash: "trim (x @ CHR ''/'' # y) = trimStart x @ CHR ''/'' # trimEnd y"
  by (simp add: trim_def trimStart_before_slash trimEnd_after_slash)

lemma collapseSlashes_double:
  "collapseSlashes (a @ CHR ''/'' # CHR ''/'' # b) = collapseSlashes (a @ CHR ''/'' # b)"
proof (induction a rule: collapseSlashes.induct)
  case 1
  then show ?case by simp
next
  case (2 c)
  then show ?case by simp
next
  case (3 c d s)
  then show ?case by simp
qed

lemma normalizePath_double_slash:
  "normalizePath (x @ ''//'' @ y) = normalizePath (x @ ''/'' @ y)"
proof -
  have e: "trimEnd (CHR ''/'' # y) = CHR ''/'' # trimEnd y"
    using trimEnd_after_slash [of "[]" y] by simp
  then have t: "trim (x @ CHR ''/'' # CHR ''/'' # y) = trimStart x @ CHR ''/'' # CHR ''/'' # trimEnd y"
    by (simp add: trim_around_slash)
  have "collapseSlashes (replaceBackslashes (trimStart x @ CHR ''/'' # CHR ''/'' # trimEnd y))
      = collapseSlashes (replaceBackslashes (trimStart x @ CHR ''/'' # trimEnd y))"
    using collapseSlashes_double [of "replaceBackslashes (trimStart x)" "replaceBackslashes (trimEnd y)"]
    by (simp add: replaceBackslashes_def)
  then show ?thesis
    by (simp add: normalizePath_def e trim_around_slash)
qed

lemma toComparableSegments_laws:
  "toComparableSegments (replaceBackslashes v) = toComparableSegments v"
  "toComparableSegments (x @ ''//'' @ y) = toComparableSegments (x @ ''/'' @ y)"
  by (simp_all only: toComparableSegments_def normalizePath_replaceBackslashes
      normalizePath_double_slash)

lemma nbsp_same_segments:
  "specSegments (''a'' @ [CHR 0xC2, CHR 0xA0]) = [''a'']" "specSegments ''a'' = [''a'']"
  by code_simp+

lemma padded_segments:
  "specSegments ('' root'' @ [CHR 0x5C] @ ''a//'' @ [CHR 0xE2, CHR 0x80, CHR 0x83]) = [''a'']"
  "specSegments ''a/b'' = [''a'', ''b'']"
  by code_simp+

lemma mismatch_segments:
  "specSegments ''root/a/x'' = [''a'', ''x'']" "specSegments ''a/y/z'' = [''a'', ''y'', ''z'']"
  by code_simp+

lemma root_only_segments: "specSegments ''root'' = []"
  by code_simp

text \<open>
  C3. \<open>getPathRelation\<close> is a total function of two strings: its loop terminates, and
  every array read of the loop is inside both arrays. The segments it compares are the
  segments of the specification (\<open>specSegments\<close>): the pieces of the trimmed path between
  separators, where a backslash separates like a slash, each piece trimmed of white space
  (that of Unicode included), empty pieces dropped so that repeated separators count once,
  and a leading segment \<open>root\<close> ignored. On these segments: an empty list on either side
  gives \<open>Disjoint\<close>; a mismatch at an index below the shorter length gives
  \<open>Disjoint\<close>; equal lists give \<open>Same\<close>; a strict prefix on the left gives
  \<open>Ancestor\<close>, on the right \<open>Descendant\<close>; and one of these cases always applies.
  The normalisation does what its name says: a white space character in front of or behind
  either path, a backslash in place of a slash, and a doubled slash in place of a slash
  never change the relation.
\<close>

theorem getPathRelation_by_segments:
  "toComparableSegments a = specSegments a
   \<and> toComparableSegments b = specSegments b
   \<and> (let aSegs = specSegments a; bSegs = specSegments b
      in (aSegs = [] \<or> bSegs = [] \<longrightarrow> getPathRelation a b = Disjoint)
       \<and> ((\<exists>i < min (length aSegs) (length bSegs). aSegs ! i \<noteq> bSegs ! i)
            \<longrightarrow> getPathRelation a b = Disjoint)
       \<and> (aSegs \<noteq> [] \<and> aSegs = bSegs \<longrightarrow> getPathRelation a b = Same)
       \<and> (aSegs \<noteq> [] \<and> strict_prefix aSegs bSegs \<longrightarrow> getPathRelation a b = Ancestor)
       \<and> (bSegs \<noteq> [] \<and> strict_prefix bSegs aSegs \<longrightarrow> getPathRelation a b = Descendant)
       \<and> (aSegs = [] \<or> bSegs = []
            \<or> (\<exists>i < min (length aSegs) (length bSegs). aSegs ! i \<noteq> bSegs ! i)
            \<or> aSegs = bSegs \<or> strict_prefix aSegs bSegs \<or> strict_prefix bSegs aSegs)
       \<and> getPathRelation a b = relateSegments aSegs bSegs
       \<and> (\<forall>i < min (length aSegs) (length bSegs).
             arrayGet (toComparableSegments a) i = Some (aSegs ! i)
             \<and> arrayGet (toComparableSegments b) i = Some (bSegs ! i)))
   \<and> (\<forall>w \<in> set whiteSpaces.
         getPathRelation (w @ a) b = getPathRelation a b
         \<and> getPathRelation (a @ w) b = getPathRelation a b
         \<and> getPathRelation a (w @ b) = getPathRelation a b
         \<and> getPathRelation a (b @ w) = getPathRelation a b)
   \<and> getPathRelation (map (\<lambda>c. if c = CHR 0x5C then CHR ''/'' else c) a) b = getPathRelation a b
   \<and> getPathRelation a (map (\<lambda>c. if c = CHR 0x5C then CHR ''/'' else c) b) = getPathRelation a b
   \<and> getPathRelation (x @ ''//'' @ y) b = getPathRelation (x @ ''/'' @ y) b
   \<and> getPathRelation a (x @ ''//'' @ y) = getPathRelation a (x @ ''/'' @ y)"
proof -
  define xs where "xs = specSegments a"
  define ys where "ys = specSegments b"
  have ta: "toComparableSegments a = xs" and tb: "toComparableSegments b = ys"
    by (simp_all add: toComparableSegments_specSegments xs_def ys_def)
  have r: "getPathRelation a b = relateSegments xs ys"
    by (simp only: getPathRelation_segments ta tb)
  have 1: "xs = [] \<or> ys = [] \<longrightarrow> relateSegments xs ys = Disjoint"
    by (simp add: relateSegments_def)
  have 2: "(\<exists>i < min (length xs) (length ys). xs ! i \<noteq> ys ! i) \<longrightarrow> relateSegments xs ys = Disjoint"
  proof
    assume "\<exists>i < min (length xs) (length ys). xs ! i \<noteq> ys ! i"
    then have "\<not> (prefix xs ys \<or> prefix ys xs)"
      using no_mismatch_iff_prefix [of xs ys] by blast
    then show "relateSegments xs ys = Disjoint"
      by (auto simp: relateSegments_def strict_prefix_def)
  qed
  have 3: "xs \<noteq> [] \<and> xs = ys \<longrightarrow> relateSegments xs ys = Same"
    by (auto simp: relateSegments_Same)
  have 4: "xs \<noteq> [] \<and> strict_prefix xs ys \<longrightarrow> relateSegments xs ys = Ancestor"
    by (simp add: relateSegments_Ancestor)
  have 5: "ys \<noteq> [] \<and> strict_prefix ys xs \<longrightarrow> relateSegments xs ys = Descendant"
    by (simp add: relateSegments_Descendant)
  have 6: "xs = [] \<or> ys = [] \<or> (\<exists>i < min (length xs) (length ys). xs ! i \<noteq> ys ! i)
            \<or> xs = ys \<or> strict_prefix xs ys \<or> strict_prefix ys xs"
  proof (cases "\<forall>i < min (length xs) (length ys). xs ! i = ys ! i")
    case True
    then have "prefix xs ys \<or> prefix ys xs"
      by (simp only: no_mismatch_iff_prefix)
    then show ?thesis by (auto simp: strict_prefix_def)
  next
    case False
    then show ?thesis by blast
  qed
  have 7: "\<forall>i < min (length xs) (length ys).
             arrayGet xs i = Some (xs ! i) \<and> arrayGet ys i = Some (ys ! i)"
    by (simp add: arrayGet_def)
  have 8: "\<forall>w \<in> set whiteSpaces.
         getPathRelation (w @ a) b = getPathRelation a b
         \<and> getPathRelation (a @ w) b = getPathRelation a b
         \<and> getPathRelation a (w @ b) = getPathRelation a b
         \<and> getPathRelation a (b @ w) = getPathRelation a b"
    by (simp add: getPathRelation_segments toComparableSegments_specSegments specSegments_padding)
  have 9: "getPathRelation (map (\<lambda>c. if c = CHR 0x5C then CHR ''/'' else c) a) b = getPathRelation a b"
    "getPathRelation a (map (\<lambda>c. if c = CHR 0x5C then CHR ''/'' else c) b) = getPathRelation a b"
    using toComparableSegments_laws(1) [of a] toComparableSegments_laws(1) [of b]
    by (simp_all add: getPathRelation_segments replaceBackslashes_def)
  have 10: "getPathRelation (x @ ''//'' @ y) b = getPathRelation (x @ ''/'' @ y) b"
    "getPathRelation a (x @ ''//'' @ y) = getPathRelation a (x @ ''/'' @ y)"
    by (simp_all only: getPathRelation_segments toComparableSegments_laws(2))
  have core: "toComparableSegments a = specSegments a
   \<and> toComparableSegments b = specSegments b
   \<and> (let aSegs = specSegments a; bSegs = specSegments b
      in (aSegs = [] \<or> bSegs = [] \<longrightarrow> getPathRelation a b = Disjoint)
       \<and> ((\<exists>i < min (length aSegs) (length bSegs). aSegs ! i \<noteq> bSegs ! i)
            \<longrightarrow> getPathRelation a b = Disjoint)
       \<and> (aSegs \<noteq> [] \<and> aSegs = bSegs \<longrightarrow> getPathRelation a b = Same)
       \<and> (aSegs \<noteq> [] \<and> strict_prefix aSegs bSegs \<longrightarrow> getPathRelation a b = Ancestor)
       \<and> (bSegs \<noteq> [] \<and> strict_prefix bSegs aSegs \<longrightarrow> getPathRelation a b = Descendant)
       \<and> (aSegs = [] \<or> bSegs = []
            \<or> (\<exists>i < min (length aSegs) (length bSegs). aSegs ! i \<noteq> bSegs ! i)
            \<or> aSegs = bSegs \<or> strict_prefix aSegs bSegs \<or> strict_prefix bSegs aSegs)
       \<and> getPathRelation a b = relateSegments aSegs bSegs
       \<and> (\<forall>i < min (length aSegs) (length bSegs).
             arrayGet (toComparableSegments a) i = Some (aSegs ! i)
             \<and> arrayGet (toComparableSegments b) i = Some (bSegs ! i)))"
    using 1 2 3 4 5 6 7
    unfolding Let_def xs_def [symmetric] ys_def [symmetric] ta tb r by blast
  show ?thesis
    using core [THEN conjunct1] core [THEN conjunct2, THEN conjunct1]
      core [THEN conjunct2, THEN conjunct2] 8 9 10
    by (intro conjI)
qed

theorem getPathRelation_by_segments_witness:
  "getPathRelation ('' root'' @ [CHR 0x5C] @ ''a//'' @ [CHR 0xE2, CHR 0x80, CHR 0x83]) ''a/b''
     = Ancestor
   \<and> getPathRelation ''a/b''
       ('' root'' @ [CHR 0x5C] @ ''a//'' @ [CHR 0xE2, CHR 0x80, CHR 0x83]) = Descendant
   \<and> getPathRelation (''a'' @ [CHR 0xC2, CHR 0xA0]) ''a'' = Same
   \<and> getPathRelation ''root/a/x'' ''a/y/z'' = Disjoint
   \<and> getPathRelation ''root'' ''a'' = Disjoint
   \<and> toComparableSegments ('' root'' @ [CHR 0x5C] @ ''a//'' @ [CHR 0xE2, CHR 0x80, CHR 0x83])
       = [''a'']
   \<and> getPathRelation ([CHR 0xEF, CHR 0xBB, CHR 0xBF] @ ''root/a/x'') ''a/y/z'' = Disjoint"
proof -
  note padded = getPathRelation_by_segments
      [of "'' root'' @ [CHR 0x5C] @ ''a//'' @ [CHR 0xE2, CHR 0x80, CHR 0x83]" "''a/b''",
       unfolded Let_def padded_segments]
  note swapped = getPathRelation_by_segments
      [of "''a/b''" "'' root'' @ [CHR 0x5C] @ ''a//'' @ [CHR 0xE2, CHR 0x80, CHR 0x83]",
       unfolded Let_def padded_segments]
  note nbsp = getPathRelation_by_segments
      [of "''a'' @ [CHR 0xC2, CHR 0xA0]" "''a''", unfolded Let_def nbsp_same_segments]
  note mismatch = getPathRelation_by_segments
      [of "''root/a/x''" "''a/y/z''", unfolded Let_def mismatch_segments]
  note rootOnly = getPathRelation_by_segments
      [of "''root''" "''a''", unfolded Let_def root_only_segments nbsp_same_segments]
  have m: "\<exists>i < min (length [''a'', ''x'']) (length [''a'', ''y'', ''z'']).
             [''a'', ''x''] ! i \<noteq> [''a'', ''y'', ''z''] ! i"
    by (intro exI [of _ 1]) simp
  from padded have 1: "getPathRelation ('' root'' @ [CHR 0x5C] @ ''a//'' @ [CHR 0xE2, CHR 0x80, CHR 0x83]) ''a/b''
     = Ancestor"
    by simp
  from swapped have 2: "getPathRelation ''a/b''
       ('' root'' @ [CHR 0x5C] @ ''a//'' @ [CHR 0xE2, CHR 0x80, CHR 0x83]) = Descendant"
    by simp
  from nbsp have 3: "getPathRelation (''a'' @ [CHR 0xC2, CHR 0xA0]) ''a'' = Same"
    by simp
  from mismatch m have 4: "getPathRelation ''root/a/x'' ''a/y/z'' = Disjoint"
    by blast
  from rootOnly have 5: "getPathRelation ''root'' ''a'' = Disjoint"
    by simp
  from padded have 6: "toComparableSegments ('' root'' @ [CHR 0x5C] @ ''a//'' @ [CHR 0xE2, CHR 0x80, CHR 0x83])
       = [''a'']"
    by simp
  have "[CHR 0xEF, CHR 0xBB, CHR 0xBF] \<in> set whiteSpaces"
    by (simp add: whiteSpaces_def)
  with getPathRelation_by_segments [of "''root/a/x''" "''a/y/z''", THEN conjunct2, THEN conjunct2,
      THEN conjunct2, THEN conjunct1]
  have "getPathRelation ([CHR 0xEF, CHR 0xBB, CHR 0xBF] @ ''root/a/x'') ''a/y/z''
      = getPathRelation ''root/a/x'' ''a/y/z''"
    by blast
  with 4 have 7: "getPathRelation ([CHR 0xEF, CHR 0xBB, CHR 0xBF] @ ''root/a/x'') ''a/y/z'' = Disjoint"
    by simp
  from 1 2 3 4 5 6 7 show ?thesis by blast
qed

section \<open>Sets and sorting\<close>

lemma set_setAdd: "set (setAdd s x) = insert x (set s)"
  by (auto simp: setAdd_def)

lemma distinct_setAdd: "distinct s \<Longrightarrow> distinct (setAdd s x)"
  by (auto simp: setAdd_def)

lemma set_foldl_setAdd: "set (foldl setAdd s xs) = set s \<union> set xs"
  by (induction xs arbitrary: s) (auto simp: set_setAdd)

lemma distinct_foldl_setAdd: "distinct s \<Longrightarrow> distinct (foldl setAdd s xs)"
  by (induction xs arbitrary: s) (auto simp: distinct_setAdd)

lemma foldl_setAdd_distinct: "distinct (s @ xs) \<Longrightarrow> foldl setAdd s xs = s @ xs"
proof (induction xs arbitrary: s)
  case Nil
  then show ?case by simp
next
  case (Cons x xs)
  from Cons.prems have "setAdd s x = s @ [x]" by (simp add: setAdd_def)
  moreover from Cons.prems have "distinct ((s @ [x]) @ xs)" by simp
  ultimately show ?case using Cons.IH [of "s @ [x]"] by simp
qed

lemma foldl_setAdd_subset: "set xs \<subseteq> set s \<Longrightarrow> foldl setAdd s xs = s"
  by (induction xs arbitrary: s) (auto simp: setAdd_def)

lemma set_newSet: "set (newSet xs) = set xs"
  by (simp add: newSet_def set_foldl_setAdd)

lemma distinct_newSet: "distinct (newSet xs)"
  by (simp add: newSet_def distinct_foldl_setAdd)

lemma newSet_distinct: "distinct xs \<Longrightarrow> newSet xs = xs"
  using foldl_setAdd_distinct [of "[]" xs] by (simp add: newSet_def)

lemma newSet_eq_Nil: "newSet xs = [] \<longleftrightarrow> xs = []"
  using set_newSet [of xs] by (metis set_empty)

lemma set_insertSorted: "set (insertSorted cmp x ys) = insert x (set ys)"
  by (induction ys) auto

lemma distinct_insertSorted: "distinct (insertSorted cmp x ys) \<longleftrightarrow> x \<notin> set ys \<and> distinct ys"
  by (induction ys) (auto simp: set_insertSorted)

lemma set_sortWith: "set (sortWith cmp xs) = set xs"
  by (induction xs) (auto simp: sortWith_def set_insertSorted)

lemma distinct_sortWith: "distinct (sortWith cmp xs) \<longleftrightarrow> distinct xs"
proof (induction xs)
  case Nil
  then show ?case by (simp add: sortWith_def)
next
  case (Cons x xs)
  have "sortWith cmp (x # xs) = insertSorted cmp x (sortWith cmp xs)"
    by (simp add: sortWith_def)
  with Cons show ?case by (simp add: distinct_insertSorted set_sortWith)
qed

lemma sortWith_eq_Nil: "sortWith cmp xs = [] \<longleftrightarrow> xs = []"
  using set_sortWith [of cmp xs] by (metis set_empty)

lemma sorted_insertSorted:
  assumes "totalPreorder cmp" and "sorted_wrt (\<lambda>a b. cmp a b \<le> 0) ys"
  shows "sorted_wrt (\<lambda>a b. cmp a b \<le> 0) (insertSorted cmp x ys)"
  using assms(2)
proof (induction ys)
  case Nil
  then show ?case by simp
next
  case (Cons y ys)
  show ?case
  proof (cases "cmp x y \<le> 0")
    case True
    have "\<forall>z \<in> set ys. cmp x z \<le> 0"
    proof
      fix z assume "z \<in> set ys"
      with Cons.prems have "cmp y z \<le> 0" by simp
      with True assms(1) show "cmp x z \<le> 0" unfolding totalPreorder_def by blast
    qed
    with True Cons.prems show ?thesis by simp
  next
    case False
    with assms(1) have "cmp y x \<le> 0" unfolding totalPreorder_def by blast
    with False Cons show ?thesis by (auto simp: set_insertSorted)
  qed
qed

lemma sorted_sortWith:
  "totalPreorder cmp \<Longrightarrow> sorted_wrt (\<lambda>a b. cmp a b \<le> 0) (sortWith cmp xs)"
proof (induction xs)
  case Nil
  then show ?case by (simp add: sortWith_def)
next
  case (Cons x xs)
  have "sortWith cmp (x # xs) = insertSorted cmp x (sortWith cmp xs)"
    by (simp add: sortWith_def)
  with Cons show ?case by (simp add: sorted_insertSorted)
qed

lemma insertSorted_sorted:
  "\<forall>y \<in> set ys. cmp x y \<le> 0 \<Longrightarrow> insertSorted cmp x ys = x # ys"
  by (cases ys) auto

lemma sortWith_sorted:
  "sorted_wrt (\<lambda>a b. cmp a b \<le> 0) xs \<Longrightarrow> sortWith cmp xs = xs"
proof (induction xs)
  case Nil
  then show ?case by (simp add: sortWith_def)
next
  case (Cons x xs)
  have "sortWith cmp (x # xs) = insertSorted cmp x (sortWith cmp xs)"
    by (simp add: sortWith_def)
  with Cons show ?case by (simp add: insertSorted_sorted)
qed

lemma totalPreorder_byteCompare: "totalPreorder byteCompare"
  unfolding totalPreorder_def byteCompare_def by auto

section \<open>The ownership resolver\<close>

lemma ownerLoop_Cons:
  "ownerLoop p (d # ds) best =
     ownerLoop p ds
       (if qualifies p d
        then (case best of
                None \<Rightarrow> Some (d, deviceDepth d)
              | Some b \<Rightarrow> if deviceDepth d > snd b then Some (d, deviceDepth d) else best)
        else best)"
  by (auto simp: qualifies_def Let_def)

lemma ownerLoop_None:
  "ownerLoop p ds best = None \<longleftrightarrow> best = None \<and> (\<forall>d \<in> set ds. \<not> qualifies p d)"
proof (induction ds arbitrary: best)
  case Nil
  then show ?case by simp
next
  case (Cons d ds)
  show ?case
    unfolding ownerLoop_Cons Cons.IH by (auto split: option.splits)
qed

lemma ownerLoop_Some:
  assumes "ownerLoop p ds best = Some (ow, k)"
  shows "(best = Some (ow, k) \<and> (\<forall>d \<in> set ds. qualifies p d \<longrightarrow> deviceDepth d \<le> k))
       \<or> (\<exists>pre post. ds = pre @ ow # post \<and> qualifies p ow \<and> k = deviceDepth ow
             \<and> (\<forall>b. best = Some b \<longrightarrow> snd b < k)
             \<and> (\<forall>d \<in> set pre. qualifies p d \<longrightarrow> deviceDepth d < k)
             \<and> (\<forall>d \<in> set post. qualifies p d \<longrightarrow> deviceDepth d \<le> k))"
  using assms
proof (induction ds arbitrary: best)
  case Nil
  then show ?case by simp
next
  case (Cons d ds)
  define best' where "best' =
       (if qualifies p d
        then (case best of
                None \<Rightarrow> Some (d, deviceDepth d)
              | Some b \<Rightarrow> if deviceDepth d > snd b then Some (d, deviceDepth d) else best)
        else best)"
  from Cons.prems have run: "ownerLoop p ds best' = Some (ow, k)"
    unfolding ownerLoop_Cons best'_def .
  from Cons.IH [OF run]
  consider (kept) "best' = Some (ow, k)" "\<forall>d \<in> set ds. qualifies p d \<longrightarrow> deviceDepth d \<le> k"
    | (later) pre post where "ds = pre @ ow # post" "qualifies p ow" "k = deviceDepth ow"
        "\<forall>b. best' = Some b \<longrightarrow> snd b < k"
        "\<forall>d \<in> set pre. qualifies p d \<longrightarrow> deviceDepth d < k"
        "\<forall>d \<in> set post. qualifies p d \<longrightarrow> deviceDepth d \<le> k"
    by blast
  then show ?case
  proof cases
    case kept
    show ?thesis
    proof (cases "best' = best")
      case True
      with kept have "best = Some (ow, k)" by simp
      moreover have "qualifies p d \<longrightarrow> deviceDepth d \<le> k"
        using True \<open>best = Some (ow, k)\<close> unfolding best'_def
        by (auto split: if_splits)
      ultimately show ?thesis using kept(2) by auto
    next
      case False
      then have q: "qualifies p d" and b': "best' = Some (d, deviceDepth d)"
        and lt: "\<forall>b. best = Some b \<longrightarrow> snd b < deviceDepth d"
        unfolding best'_def by (auto split: if_splits option.splits)
      from b' kept(1) have "ow = d" "k = deviceDepth d" by simp_all
      then have "d # ds = [] @ ow # ds" by simp
      with q lt kept(2) \<open>ow = d\<close> \<open>k = deviceDepth d\<close> show ?thesis
        by (intro disjI2 exI [of _ "[]"] exI [of _ ds]) auto
    qed
  next
    case later
    have d_lt: "qualifies p d \<longrightarrow> deviceDepth d < k"
      using later(4) unfolding best'_def
      by (auto split: if_splits option.splits)
    have b_lt: "\<forall>b. best = Some b \<longrightarrow> snd b < k"
      using later(4) unfolding best'_def
      by (auto split: if_splits option.splits)
    have "d # ds = (d # pre) @ ow # post" using later(1) by simp
    with later d_lt b_lt show ?thesis
      by (intro disjI2 exI [of _ "d # pre"] exI [of _ post]) auto
  qed
qed

lemma computeOwnerDevice_None:
  "computeOwnerDevice p ds = None \<longleftrightarrow> (\<forall>d \<in> set ds. \<not> qualifies p d)"
  by (simp add: computeOwnerDevice_def ownerLoop_None)

lemma computeOwnerDevice_Some:
  assumes "computeOwnerDevice p ds = Some ow"
  shows "\<exists>pre post. ds = pre @ ow # post \<and> qualifies p ow
             \<and> (\<forall>d \<in> set pre. qualifies p d \<longrightarrow> deviceDepth d < deviceDepth ow)
             \<and> (\<forall>d \<in> set post. qualifies p d \<longrightarrow> deviceDepth d \<le> deviceDepth ow)"
proof -
  from assms obtain k where "ownerLoop p ds None = Some (ow, k)"
    by (auto simp: computeOwnerDevice_def)
  from ownerLoop_Some [OF this] show ?thesis by auto
qed

lemma qualifies_not_Disjoint:
  assumes "qualifies p d1" and "qualifies p d2"
  shows "getPathRelation d1 d2 \<noteq> Disjoint"
proof -
  let ?a = "toComparableSegments d1" and ?b = "toComparableSegments d2"
  from assms have ne: "?a \<noteq> []" "?b \<noteq> []"
    and pre: "prefix ?a (toComparableSegments p)" "prefix ?b (toComparableSegments p)"
    by (simp_all add: qualifies_iff)
  from pre have "prefix ?a ?b \<or> prefix ?b ?a"
    by (rule prefix_same_cases)
  with ne show ?thesis
    unfolding getPathRelation_segments relateSegments_def
    by (auto simp: strict_prefix_def)
qed

subsection \<open>Keys of the folder tree\<close>

lemma split_append:
  "sep \<notin> set s \<Longrightarrow> split sep (s @ r) = (s @ hd (split sep r)) # tl (split sep r)"
proof (induction s)
  case Nil
  then show ?case using split_nonempty [of sep r] by (cases "split sep r") simp_all
next
  case (Cons c s)
  then show ?case by auto
qed

lemma split_joined:
  "\<forall>seg \<in> set segs. sep \<notin> set seg \<Longrightarrow>
     split sep (concat (map (\<lambda>seg. sep # seg) segs)) = [] # segs"
proof (induction segs)
  case Nil
  then show ?case by simp
next
  case (Cons x xs)
  then have "split sep (x @ concat (map (\<lambda>seg. sep # seg) xs)) = x # xs"
    by (simp add: split_append)
  then show ?case by simp
qed

lemma split_treeKey:
  assumes "\<forall>seg \<in> set segs. CHR ''/'' \<notin> set seg"
  shows "split CHR ''/'' (treeKey segs) = ''root'' # segs"
proof -
  let ?r = "concat (map (\<lambda>seg. CHR ''/'' # seg) segs)"
  have "split CHR ''/'' (''root'' @ ?r)
      = (''root'' @ hd (split CHR ''/'' ?r)) # tl (split CHR ''/'' ?r)"
    by (rule split_append) simp
  then show ?thesis
    unfolding treeKey_def split_joined [OF assms] by simp
qed

lemma last_treeKey:
  "\<forall>seg \<in> set segs. seg \<noteq> [] \<Longrightarrow>
     last (treeKey segs) = (if segs = [] then CHR ''t'' else last (last segs))"
proof (induction segs rule: rev_induct)
  case Nil
  then show ?case by (simp add: treeKey_def)
next
  case (snoc x xs)
  then show ?case by (simp add: treeKey_def)
qed

lemma trim_treeKey:
  assumes "\<forall>seg \<in> set segs. folderSegment seg"
  shows "trim (treeKey segs) = treeKey segs"
proof (rule trim_fixed)
  show "\<not> hasLeading whiteSpaces (treeKey segs)"
  proof
    assume "hasLeading whiteSpaces (treeKey segs)"
    then obtain w where w: "w \<in> set whiteSpaces" "w \<noteq> []" "prefix w (treeKey segs)"
      by (auto simp: hasLeading_def list_ex_iff)
    from w(2,3) have "hd w = CHR ''r''"
      by (cases w) (auto simp: treeKey_def)
    with w(1) whiteSpaces_chars show False by blast
  qed
  show "\<not> hasLeading (map rev whiteSpaces) (rev (treeKey segs))"
  proof
    assume "hasLeading (map rev whiteSpaces) (rev (treeKey segs))"
    then obtain w where w: "w \<in> set whiteSpaces" "w \<noteq> []" "prefix (rev w) (rev (treeKey segs))"
      by (auto simp: hasLeading_def list_ex_iff)
    from w(1) whiteSpaces_chars have c: "CHR ''/'' \<notin> set w" "last w \<noteq> CHR ''t''"
      by blast+
    show False
    proof (cases segs rule: rev_cases)
      case Nil
      with w(2,3) have "hd (rev w) = CHR ''t''"
        by (cases "rev w") (auto simp: treeKey_def)
      with w(2) c(2) show False by (simp add: hd_rev)
    next
      case (snoc front seg)
      then have "rev (treeKey segs) = rev seg @ CHR ''/'' # rev (treeKey front)"
        by (simp add: treeKey_def)
      with w(3) c(1) have "prefix (rev w) (rev seg)"
        using prefix_before_char [of "rev w" "rev seg" "CHR ''/''" "rev (treeKey front)"] by simp
      with w(1,2) have "hasLeading (map rev whiteSpaces) (rev seg)"
        by (auto simp: hasLeading_def list_ex_iff)
      moreover have "trim seg = seg"
        using assms snoc by (simp add: folderSegment_def)
      ultimately show False
        using trimmed_no_trailing by blast
    qed
  qed
qed

lemma replaceBackslashes_treeKey:
  assumes "\<forall>seg \<in> set segs. folderSegment seg"
  shows "replaceBackslashes (treeKey segs) = treeKey segs"
proof -
  have "CHR 0x5C \<notin> set (treeKey segs)"
    using assms by (auto simp: treeKey_def folderSegment_def)
  then show ?thesis
    unfolding replaceBackslashes_def by (intro map_idI) auto
qed

lemma collapseSlashes_no_slash:
  "CHR ''/'' \<notin> set s \<Longrightarrow> collapseSlashes (s @ r) = s @ collapseSlashes r"
proof (induction s)
  case Nil
  then show ?case by simp
next
  case (Cons c s)
  then show ?case by (cases "s @ r") auto
qed

lemma collapseSlashes_joined:
  "\<forall>seg \<in> set segs. seg \<noteq> [] \<and> CHR ''/'' \<notin> set seg \<Longrightarrow>
     collapseSlashes (concat (map (\<lambda>seg. CHR ''/'' # seg) segs))
       = concat (map (\<lambda>seg. CHR ''/'' # seg) segs)"
proof (induction segs)
  case Nil
  then show ?case by simp
next
  case (Cons x xs)
  then obtain c cs where x: "x = c # cs" "c \<noteq> CHR ''/''"
    by (cases x) auto
  let ?r = "concat (map (\<lambda>seg. CHR ''/'' # seg) xs)"
  have "collapseSlashes (CHR ''/'' # x @ ?r) = CHR ''/'' # collapseSlashes (x @ ?r)"
    using x by simp
  also have "collapseSlashes (x @ ?r) = x @ collapseSlashes ?r"
    using Cons.prems by (simp add: collapseSlashes_no_slash)
  also have "collapseSlashes ?r = ?r"
    using Cons by simp
  finally show ?case by simp
qed

lemma collapseSlashes_treeKey:
  assumes "\<forall>seg \<in> set segs. folderSegment seg"
  shows "collapseSlashes (treeKey segs) = treeKey segs"
proof -
  let ?r = "concat (map (\<lambda>seg. CHR ''/'' # seg) segs)"
  have "collapseSlashes (''root'' @ ?r) = ''root'' @ collapseSlashes ?r"
    by (rule collapseSlashes_no_slash) simp
  moreover have "\<forall>seg \<in> set segs. seg \<noteq> [] \<and> CHR ''/'' \<notin> set seg"
    using assms by (simp add: folderSegment_def)
  ultimately show ?thesis
    unfolding treeKey_def by (simp only: collapseSlashes_joined)
qed

text \<open>
  A key of the folder tree has its segments as comparable segments, and one raw piece
  more: on tree keys the depth of \<open>computeOwnerDevice\<close> is the stripped depth plus one.
\<close>

lemma toComparableSegments_treeKey:
  assumes "\<forall>seg \<in> set segs. folderSegment seg"
  shows "toComparableSegments (treeKey segs) = segs"
proof -
  have n: "normalizePath (treeKey segs) = treeKey segs"
    using assms
    by (simp add: normalizePath_def trim_treeKey replaceBackslashes_treeKey collapseSlashes_treeKey)
  have s: "split CHR ''/'' (treeKey segs) = ''root'' # segs"
    using assms by (intro split_treeKey) (simp add: folderSegment_def)
  have t: "map trim segs = segs"
    using assms by (intro map_idI) (simp add: folderSegment_def)
  have f: "filterBoolean segs = segs"
    using assms by (simp add: filterBoolean_def folderSegment_def)
  have r: "trim ''root'' = ''root''" by code_simp
  show ?thesis
    by (simp add: toComparableSegments_def n s t r filterBoolean_def stripRootPrefix_def)
       (simp add: f [unfolded filterBoolean_def])
qed

lemma deviceDepth_treeKey:
  assumes "\<forall>seg \<in> set segs. folderSegment seg"
  shows "deviceDepth (treeKey segs) = Suc (strippedDepth (treeKey segs))"
proof -
  have s: "split CHR ''/'' (treeKey segs) = ''root'' # segs"
    using assms by (intro split_treeKey) (simp add: folderSegment_def)
  have f: "filter (\<lambda>s. s \<noteq> []) segs = segs"
    using assms by (simp add: folderSegment_def)
  have "specSegments (treeKey segs) = segs"
    using toComparableSegments_treeKey [OF assms] by (simp add: toComparableSegments_specSegments)
  then show ?thesis
    by (simp add: deviceDepth_def strippedDepth_def s filterBoolean_def f)
qed

lemma join_split:
  "s = hd (split sep s) @ concat (map ((#) sep) (tl (split sep s)))"
proof (induction s)
  case Nil
  then show ?case by simp
next
  case (Cons c s)
  have ne: "split sep s = hd (split sep s) # tl (split sep s)"
    using split_nonempty [of sep s] by simp
  show ?case
  proof (cases "c = sep")
    case True
    have "concat (map ((#) sep) (split sep s))
        = sep # hd (split sep s) @ concat (map ((#) sep) (tl (split sep s)))"
      by (subst ne) simp
    with Cons True show ?thesis
      by (simp add: split_Cons del: split.simps)
  next
    case False
    with Cons show ?thesis
      by (simp add: split_Cons del: split.simps)
  qed
qed

lemma isTreeKey_iff:
  "isTreeKey d \<longleftrightarrow> (\<exists>segs. (\<forall>seg \<in> set segs. folderSegment seg) \<and> d = treeKey segs)"
proof
  assume t: "isTreeKey d"
  then obtain segs where s: "split CHR ''/'' d = ''root'' # segs"
    and f: "\<forall>seg \<in> set segs. folderSegment seg"
    by (auto simp: isTreeKey_def list_all_iff split: list.splits)
  have "d = treeKey segs"
    using join_split [of d "CHR ''/''"] unfolding s treeKey_def by simp
  with f show "\<exists>segs. (\<forall>seg \<in> set segs. folderSegment seg) \<and> d = treeKey segs" by blast
next
  assume "\<exists>segs. (\<forall>seg \<in> set segs. folderSegment seg) \<and> d = treeKey segs"
  then obtain segs where f: "\<forall>seg \<in> set segs. folderSegment seg" and d: "d = treeKey segs"
    by blast
  have "split CHR ''/'' (treeKey segs) = ''root'' # segs"
    using f by (intro split_treeKey) (simp add: folderSegment_def)
  with f d show "isTreeKey d"
    by (simp add: isTreeKey_def list_all_iff)
qed

lemma set_stripLeading: "set (stripLeading tokens s) \<subseteq> set s"
  using stripLeading_suffix [of tokens s] by (rule set_mono_suffix)

lemma set_trim: "set (trim s) \<subseteq> set s"
proof -
  have "set (trimEnd t) \<subseteq> set t" for t
    using set_stripLeading [of "map rev whiteSpaces" "rev t"] by (simp add: trimEnd_def)
  moreover have "set (trimStart s) \<subseteq> set s"
    by (simp add: trimStart_def set_stripLeading)
  ultimately show ?thesis
    unfolding trim_def by blast
qed

lemma split_pieces:
  "seg \<in> set (split sep s) \<Longrightarrow> sep \<notin> set seg \<and> set seg \<subseteq> set s"
proof (induction s arbitrary: seg)
  case Nil
  then show ?case by simp
next
  case (Cons c s)
  have ne: "split sep s = hd (split sep s) # tl (split sep s)"
    using split_nonempty [of sep s] by simp
  have h: "hd (split sep s) \<in> set (split sep s)"
    using split_nonempty [of sep s] by simp
  have t: "x \<in> set (tl (split sep s)) \<Longrightarrow> x \<in> set (split sep s)" for x
    by (rule list.set_sel(2) [OF split_nonempty])
  show ?case
  proof (cases "c = sep")
    case True
    with Cons.prems have "seg = [] \<or> seg \<in> set (split sep s)"
      by (simp add: split_Cons del: split.simps)
    then show ?thesis using Cons.IH by auto
  next
    case False
    with Cons.prems have "seg = c # hd (split sep s) \<or> seg \<in> set (tl (split sep s))"
      by (simp add: split_Cons del: split.simps)
    then show ?thesis
    proof
      assume "seg = c # hd (split sep s)"
      with False Cons.IH [OF h] show ?thesis by auto
    next
      assume "seg \<in> set (tl (split sep s))"
      from Cons.IH [OF t [OF this]] show ?thesis by auto
    qed
  qed
qed

lemma set_collapseSlashes: "set (collapseSlashes s) \<subseteq> set s"
  by (induction s rule: collapseSlashes.induct) auto

lemma normalizePath_no_backslash: "CHR 0x5C \<notin> set (normalizePath v)"
proof -
  have "CHR 0x5C \<notin> set (replaceBackslashes (trim v))"
    by (auto simp: replaceBackslashes_def)
  then show ?thesis
    unfolding normalizePath_def using set_collapseSlashes by blast
qed

lemma normalized_segments_folderSegment:
  assumes "seg \<in> set (filterBoolean (map trim (split CHR ''/'' (normalizePath v))))"
  shows "folderSegment seg"
proof -
  from assms obtain x where x: "x \<in> set (split CHR ''/'' (normalizePath v))"
    and seg: "seg = trim x" and ne: "seg \<noteq> []"
    by (auto simp: filterBoolean_def)
  from split_pieces [OF x] normalizePath_no_backslash [of v]
  have "CHR ''/'' \<notin> set x" "CHR 0x5C \<notin> set x" by auto
  with set_trim [of x] have "CHR ''/'' \<notin> set seg" "CHR 0x5C \<notin> set seg"
    unfolding seg by auto
  with ne show ?thesis
    by (simp add: folderSegment_def seg trim_idem)
qed

lemma splitFolderSegments_folderSegment:
  "seg \<in> set (splitFolderSegments p) \<Longrightarrow> folderSegment seg"
  by (auto simp: splitFolderSegments_def Let_def split: if_splits
      dest!: in_set_butlastD normalized_segments_folderSegment)

lemma pathKeys_treeKey:
  assumes "k \<in> set (pathKeys (treeKey pre) segs)"
    and "\<forall>seg \<in> set pre. folderSegment seg" and "\<forall>seg \<in> set segs. folderSegment seg"
  shows "\<exists>segs'. (\<forall>seg \<in> set segs'. folderSegment seg) \<and> k = treeKey segs'"
  using assms
proof (induction segs arbitrary: pre)
  case Nil
  then show ?case by simp
next
  case (Cons seg segs)
  have n: "treeKey pre @ ''/'' @ seg = treeKey (pre @ [seg])"
    by (simp add: treeKey_def)
  from Cons.prems(1) have "k = treeKey (pre @ [seg]) \<or> k \<in> set (pathKeys (treeKey (pre @ [seg])) segs)"
    by (simp add: Let_def n del: append.simps)
  then show ?case
  proof
    assume "k = treeKey (pre @ [seg])"
    moreover have "\<forall>x \<in> set (pre @ [seg]). folderSegment x"
      using Cons.prems by simp
    ultimately show ?thesis by blast
  next
    assume "k \<in> set (pathKeys (treeKey (pre @ [seg])) segs)"
    moreover have "\<forall>x \<in> set (pre @ [seg]). folderSegment x"
      using Cons.prems by simp
    moreover have "\<forall>x \<in> set segs. folderSegment x"
      using Cons.prems by simp
    ultimately show ?thesis by (rule Cons.IH)
  qed
qed

lemma folderTreeKeys_isTreeKey:
  assumes "k \<in> set (folderTreeKeys paths)"
  shows "isTreeKey k"
proof -
  have r: "''root'' = treeKey []" by (simp add: treeKey_def)
  from assms have "k = ''root'' \<or> (\<exists>p \<in> set paths. k \<in> set (pathKeys ''root'' (splitFolderSegments p)))"
    by (auto simp: folderTreeKeys_def set_newSet)
  then show ?thesis
  proof
    assume "k = ''root''"
    then show ?thesis unfolding isTreeKey_iff using r by (intro exI [of _ "[]"]) simp
  next
    assume "\<exists>p \<in> set paths. k \<in> set (pathKeys ''root'' (splitFolderSegments p))"
    then obtain p where "k \<in> set (pathKeys (treeKey []) (splitFolderSegments p))"
      unfolding r [symmetric] by blast
    then show ?thesis
      unfolding isTreeKey_iff
      by (rule pathKeys_treeKey) (simp_all add: splitFolderSegments_folderSegment)
  qed
qed

lemma tree_example_keys:
  "folderTreeKeys ['' a/b/c '', ''root/a'' @ [CHR 0x5C] @ ''x//y/p'', ''z/p'', ''q'']
     = [''root'', ''root/a'', ''root/a/b'', ''root/root'', ''root/root/a'', ''root/root/a/x'',
        ''root/root/a/x/y'', ''root/z'']"
  by code_simp


lemma computeOwnerDevice_Some_iff:
  "computeOwnerDevice p ds = Some ow \<longleftrightarrow>
     (\<exists>pre post. ds = pre @ ow # post \<and> qualifies p ow
        \<and> (\<forall>d \<in> set pre. qualifies p d \<longrightarrow> deviceDepth d < deviceDepth ow)
        \<and> (\<forall>d \<in> set post. qualifies p d \<longrightarrow> deviceDepth d \<le> deviceDepth ow))"
proof
  assume "computeOwnerDevice p ds = Some ow"
  then show "\<exists>pre post. ds = pre @ ow # post \<and> qualifies p ow
        \<and> (\<forall>d \<in> set pre. qualifies p d \<longrightarrow> deviceDepth d < deviceDepth ow)
        \<and> (\<forall>d \<in> set post. qualifies p d \<longrightarrow> deviceDepth d \<le> deviceDepth ow)"
    by (rule computeOwnerDevice_Some)
next
  assume "\<exists>pre post. ds = pre @ ow # post \<and> qualifies p ow
        \<and> (\<forall>d \<in> set pre. qualifies p d \<longrightarrow> deviceDepth d < deviceDepth ow)
        \<and> (\<forall>d \<in> set post. qualifies p d \<longrightarrow> deviceDepth d \<le> deviceDepth ow)"
  then obtain pre post where d: "ds = pre @ ow # post" and q: "qualifies p ow"
    and l: "\<forall>d \<in> set pre. qualifies p d \<longrightarrow> deviceDepth d < deviceDepth ow"
    and r: "\<forall>d \<in> set post. qualifies p d \<longrightarrow> deviceDepth d \<le> deviceDepth ow"
    by blast
  from d q have "computeOwnerDevice p ds \<noteq> None"
    by (auto simp: computeOwnerDevice_None)
  then obtain ow' where o: "computeOwnerDevice p ds = Some ow'" by blast
  from computeOwnerDevice_Some [OF o] obtain pre' post' where
    d': "ds = pre' @ ow' # post'" and q': "qualifies p ow'"
    and l': "\<forall>d \<in> set pre'. qualifies p d \<longrightarrow> deviceDepth d < deviceDepth ow'"
    and r': "\<forall>d \<in> set post'. qualifies p d \<longrightarrow> deviceDepth d \<le> deviceDepth ow'"
    by blast
  from d d' have e: "pre @ ow # post = pre' @ ow' # post'" by simp
  then consider us where "pre = pre' @ ow' # us" "post' = us @ ow # post"
    | "pre = pre'" "ow = ow'"
    | us where "pre' = pre @ ow # us" "post = us @ ow' # post'"
    by (auto simp: append_eq_append_conv2 Cons_eq_append_conv append_eq_Cons_conv)
  then have "ow' = ow"
  proof cases
    case 1
    then have "deviceDepth ow' < deviceDepth ow" "deviceDepth ow \<le> deviceDepth ow'"
      using l q' r' q by auto
    then show ?thesis by simp
  next
    case 2
    then show ?thesis by simp
  next
    case 3
    then have "deviceDepth ow < deviceDepth ow'" "deviceDepth ow' \<le> deviceDepth ow"
      using l' q r q' by auto
    then show ?thesis by simp
  qed
  with o show "computeOwnerDevice p ds = Some ow" by simp
qed

lemma split_append_sep: "split sep (a @ sep # b) = split sep a @ split sep b"
proof (induction a)
  case Nil
  then show ?case by simp
next
  case (Cons c a)
  have ne: "split sep a \<noteq> []" by (rule split_nonempty)
  then show ?case
    using Cons by (simp add: split_Cons del: split.simps)
qed

lemma deviceDepth_slash: "deviceDepth (a @ CHR ''/'' # b) = deviceDepth a + deviceDepth b"
  by (simp add: deviceDepth_def split_append_sep filterBoolean_def)

lemma split_no_sep: "sep \<notin> set s \<Longrightarrow> split sep s = [s]"
  using split_append [of sep s "[]"] by simp

lemma deviceDepth_no_slash:
  "CHR ''/'' \<notin> set s \<Longrightarrow> deviceDepth s = (if s = [] then 0 else 1)"
  by (simp add: deviceDepth_def split_no_sep filterBoolean_def)

lemma treeKey_inject:
  assumes "\<forall>seg \<in> set xs. folderSegment seg" and "\<forall>seg \<in> set ys. folderSegment seg"
    and "treeKey xs = treeKey ys"
  shows "xs = ys"
  using toComparableSegments_treeKey [OF assms(1)] toComparableSegments_treeKey [OF assms(2)]
    assms(3) by metis

lemma treeKey_qualifying_distinct:
  assumes "isTreeKey d1" and "isTreeKey d2" and "qualifies p d1" and "qualifies p d2"
    and "d1 \<noteq> d2"
  shows "strippedDepth d1 \<noteq> strippedDepth d2"
proof
  assume e: "strippedDepth d1 = strippedDepth d2"
  from assms(1,2) obtain xs ys where
    x: "\<forall>seg \<in> set xs. folderSegment seg" "d1 = treeKey xs"
    and y: "\<forall>seg \<in> set ys. folderSegment seg" "d2 = treeKey ys"
    unfolding isTreeKey_iff by blast
  have sx: "toComparableSegments d1 = xs" and sy: "toComparableSegments d2 = ys"
    using x y by (simp_all add: toComparableSegments_treeKey)
  from e have "length xs = length ys"
    by (simp add: strippedDepth_def toComparableSegments_specSegments [symmetric] sx sy)
  moreover from assms(3,4) have "prefix xs (toComparableSegments p)" "prefix ys (toComparableSegments p)"
    by (simp_all add: qualifies_iff sx sy)
  ultimately have "xs = ys"
    using relate_by_length(1) [of xs ys] prefix_same_cases by blast
  with x y assms(5) show False by simp
qed

lemma isTreeKey_depth:
  assumes "isTreeKey d"
  shows "deviceDepth d = Suc (strippedDepth d)"
  using assms deviceDepth_treeKey unfolding isTreeKey_iff by blast


subsection \<open>The deepest qualifying device\<close>

lemma tree_devices_example:
  "folderTreeKeys [''a/b/c'', ''z/p''] = [''root'', ''root/a'', ''root/a/b'', ''root/z'']"
  by code_simp

lemma owner_tree_example:
  "computeOwnerDevice ''a/b/c'' [''root'', ''root/a'', ''root/a/b'', ''root/z''] = Some ''root/a/b''"
  by code_simp

lemma owner_none_example:
  "computeOwnerDevice ''q/c'' [''root'', ''root/a'', ''root/a/b'', ''root/z''] = None"
  by code_simp

lemma relation_tree_example:
  "getPathRelation ''root/a'' ''a/b/c'' = Ancestor"
  "getPathRelation ''root/a/b'' ''a/b/c'' = Ancestor"
  by code_simp+

lemma depth_tree_example:
  "strippedDepth ''root/a'' = 1" "strippedDepth ''root/a/b'' = 2"
  by code_simp+

text \<open>
  C2. For every point path and every list of device paths, without the Device-Set
  invariant: \<open>computeOwnerDevice\<close> returns none exactly when no device of the list is in
  the relation \<open>Ancestor\<close> or \<open>Same\<close> to the point path; a device it returns is a
  device of the list in one of these two relations. The device paths of the program are
  keys of the folder tree (every key \<open>buildFolderTreeFromPaths\<close> creates is one, for
  every list of paths). On such a list the returned device has strictly more segments
  after root stripping than every other qualifying device of the list, and a qualifying
  device that has at least as many such segments as every qualifying device is the one
  returned.
\<close>

theorem computeOwnerDevice_deepest_qualifying:
  "(computeOwnerDevice p devs = None \<longleftrightarrow>
      (\<forall>d \<in> set devs. getPathRelation d p \<noteq> Ancestor \<and> getPathRelation d p \<noteq> Same))
   \<and> (\<forall>ow. computeOwnerDevice p devs = Some ow \<longrightarrow>
          ow \<in> set devs \<and> (getPathRelation ow p = Ancestor \<or> getPathRelation ow p = Same))
   \<and> (\<forall>ow. computeOwnerDevice p devs = Some ow \<and> (\<forall>d \<in> set devs. isTreeKey d) \<longrightarrow>
          (\<forall>d \<in> set devs.
              (getPathRelation d p = Ancestor \<or> getPathRelation d p = Same) \<and> d \<noteq> ow
                \<longrightarrow> strippedDepth d < strippedDepth ow))
   \<and> (\<forall>ow. (\<forall>d \<in> set devs. isTreeKey d) \<and> ow \<in> set devs
          \<and> (getPathRelation ow p = Ancestor \<or> getPathRelation ow p = Same)
          \<and> (\<forall>d \<in> set devs. getPathRelation d p = Ancestor \<or> getPathRelation d p = Same
                \<longrightarrow> strippedDepth d \<le> strippedDepth ow)
          \<longrightarrow> computeOwnerDevice p devs = Some ow)
   \<and> (\<forall>k \<in> set (folderTreeKeys paths). isTreeKey k)"
proof -
  have strict: "strippedDepth d < strippedDepth ow"
    if o: "computeOwnerDevice p devs = Some ow" and t: "\<forall>d \<in> set devs. isTreeKey d"
      and d: "d \<in> set devs" "qualifies p d" "d \<noteq> ow" for ow d
  proof -
    from computeOwnerDevice_Some [OF o] have ow: "ow \<in> set devs" "qualifies p ow"
      and m: "\<forall>x \<in> set devs. qualifies p x \<longrightarrow> deviceDepth x \<le> deviceDepth ow"
      by (auto simp: less_imp_le)
    from m d have "deviceDepth d \<le> deviceDepth ow" by blast
    then have "strippedDepth d \<le> strippedDepth ow"
      using t d(1) ow(1) by (simp add: isTreeKey_depth)
    moreover have "strippedDepth d \<noteq> strippedDepth ow"
      using t d ow by (intro treeKey_qualifying_distinct [of d ow p]) auto
    ultimately show ?thesis by simp
  qed
  have 1: "computeOwnerDevice p devs = None \<longleftrightarrow>
      (\<forall>d \<in> set devs. getPathRelation d p \<noteq> Ancestor \<and> getPathRelation d p \<noteq> Same)"
    by (simp add: computeOwnerDevice_None qualifies_def)
  have 2: "\<forall>ow. computeOwnerDevice p devs = Some ow \<longrightarrow>
          ow \<in> set devs \<and> (getPathRelation ow p = Ancestor \<or> getPathRelation ow p = Same)"
    using computeOwnerDevice_Some [of p devs] by (auto simp: qualifies_def)
  have 3: "\<forall>ow. computeOwnerDevice p devs = Some ow \<and> (\<forall>d \<in> set devs. isTreeKey d) \<longrightarrow>
          (\<forall>d \<in> set devs.
              (getPathRelation d p = Ancestor \<or> getPathRelation d p = Same) \<and> d \<noteq> ow
                \<longrightarrow> strippedDepth d < strippedDepth ow)"
    using strict by (simp add: qualifies_def)
  have 4: "\<forall>ow. (\<forall>d \<in> set devs. isTreeKey d) \<and> ow \<in> set devs
          \<and> (getPathRelation ow p = Ancestor \<or> getPathRelation ow p = Same)
          \<and> (\<forall>d \<in> set devs. getPathRelation d p = Ancestor \<or> getPathRelation d p = Same
                \<longrightarrow> strippedDepth d \<le> strippedDepth ow)
          \<longrightarrow> computeOwnerDevice p devs = Some ow"
  proof (intro allI impI, elim conjE)
    fix ow
    assume t: "\<forall>d \<in> set devs. isTreeKey d" and i: "ow \<in> set devs"
      and q: "getPathRelation ow p = Ancestor \<or> getPathRelation ow p = Same"
      and g: "\<forall>d \<in> set devs. getPathRelation d p = Ancestor \<or> getPathRelation d p = Same
                \<longrightarrow> strippedDepth d \<le> strippedDepth ow"
    from i q have "computeOwnerDevice p devs \<noteq> None"
      unfolding 1 by blast
    then obtain ow' where o: "computeOwnerDevice p devs = Some ow'" by blast
    with 2 have ow': "ow' \<in> set devs" "getPathRelation ow' p = Ancestor \<or> getPathRelation ow' p = Same"
      by blast+
    have "ow = ow'"
    proof (rule ccontr)
      assume "ow \<noteq> ow'"
      with strict [OF o t i] q have "strippedDepth ow < strippedDepth ow'"
        by (simp add: qualifies_def)
      moreover from g ow' have "strippedDepth ow' \<le> strippedDepth ow" by blast
      ultimately show False by simp
    qed
    with o show "computeOwnerDevice p devs = Some ow" by simp
  qed
  have 5: "\<forall>k \<in> set (folderTreeKeys paths). isTreeKey k"
    using folderTreeKeys_isTreeKey by blast
  from 1 2 3 4 5 show ?thesis by blast
qed

theorem computeOwnerDevice_deepest_qualifying_witness:
  "computeOwnerDevice ''a/b/c'' (folderTreeKeys [''a/b/c'', ''z/p'']) = Some ''root/a/b''
   \<and> ''root/a'' \<in> set (folderTreeKeys [''a/b/c'', ''z/p''])
   \<and> getPathRelation ''root/a'' ''a/b/c'' = Ancestor
   \<and> strippedDepth ''root/a'' < strippedDepth ''root/a/b''
   \<and> isTreeKey ''root/a/b''
   \<and> getPathRelation ''root/a/b'' ''a/b/c'' = Ancestor
   \<and> computeOwnerDevice ''q/c'' (folderTreeKeys [''a/b/c'', ''z/p'']) = None
   \<and> getPathRelation ''root/a'' ''q/c'' \<noteq> Ancestor"
proof -
  note owned = computeOwnerDevice_deepest_qualifying
      [of "''a/b/c''" "folderTreeKeys [''a/b/c'', ''z/p'']" "[''a/b/c'', ''z/p'']"]
  note unowned = computeOwnerDevice_deepest_qualifying
      [of "''q/c''" "folderTreeKeys [''a/b/c'', ''z/p'']" "[''a/b/c'', ''z/p'']"]
  note member = owned [THEN conjunct2, THEN conjunct1, rule_format]
  note deeper = owned [THEN conjunct2, THEN conjunct2, THEN conjunct1, rule_format]
  note keys = owned [THEN conjunct2, THEN conjunct2, THEN conjunct2, THEN conjunct2, rule_format]
  note none = unowned [THEN conjunct1, THEN iffD1, rule_format]
  have o: "computeOwnerDevice ''a/b/c'' (folderTreeKeys [''a/b/c'', ''z/p'']) = Some ''root/a/b''"
    by (simp only: tree_devices_example owner_tree_example)
  have n: "computeOwnerDevice ''q/c'' (folderTreeKeys [''a/b/c'', ''z/p'']) = None"
    by (simp only: tree_devices_example owner_none_example)
  have i: "''root/a'' \<in> set (folderTreeKeys [''a/b/c'', ''z/p''])"
    "''root/a/b'' \<in> set (folderTreeKeys [''a/b/c'', ''z/p''])"
    by (simp_all add: tree_devices_example)
  have t: "\<forall>d \<in> set (folderTreeKeys [''a/b/c'', ''z/p'']). isTreeKey d"
    using keys by blast
  have r: "(getPathRelation ''root/a'' ''a/b/c'' = Ancestor
             \<or> getPathRelation ''root/a'' ''a/b/c'' = Same) \<and> ''root/a'' \<noteq> ''root/a/b''"
    by (simp add: relation_tree_example)
  have 1: "strippedDepth ''root/a'' < strippedDepth ''root/a/b''"
    using conjI [OF o t] i(1) r by (rule deeper)
  have 2: "isTreeKey ''root/a/b''"
    using i(2) by (rule keys)
  from member [OF o] have "getPathRelation ''root/a/b'' ''a/b/c'' = Ancestor
      \<or> getPathRelation ''root/a/b'' ''a/b/c'' = Same"
    by (rule conjunct2)
  then have 3: "getPathRelation ''root/a/b'' ''a/b/c'' = Ancestor"
    by (simp add: relation_tree_example)
  from none [OF n i(1)] have 4: "getPathRelation ''root/a'' ''q/c'' \<noteq> Ancestor"
    by (rule conjunct1)
  from o i(1) relation_tree_example(1) 1 2 3 n 4 show ?thesis
    by (intro conjI)
qed

subsection \<open>Raw depth and ties\<close>

lemma tie_example_owner:
  "computeOwnerDevice ''root/a/b/pt'' [''root/a/b'', ''root//a/b''] = Some ''root/a/b''"
  by code_simp

lemma tie_example_invariant: "deviceSetInvariant [''root/a/b'', ''root//a/b'']"
  by code_simp

lemma tie_example_relation:
  "getPathRelation ''root/a/b'' ''root/a/b/pt'' = Ancestor"
  "getPathRelation ''root//a/b'' ''root/a/b/pt'' = Ancestor"
  "getPathRelation ''root/a/b'' ''root//a/b'' = Same"
  by code_simp+

lemma tie_example_depth: "deviceDepth ''root/a/b'' = 3" "deviceDepth ''root//a/b'' = 3"
  by code_simp+

lemma tie_example_qualifies:
  "qualifies ''root/a/b/pt'' ''root/a/b''" "qualifies ''root/a/b/pt'' ''root//a/b''"
  by code_simp+

text \<open>
  C10, as stated, fails in its parenthesis: the device paths \<open>root/a/b\<close> and
  \<open>root//a/b\<close> are distinct, both are ancestors of the point \<open>root/a/b/pt\<close> and
  they have the same depth, yet they are in the relation \<open>Same\<close>, so that a list
  holding both satisfies the Device-Set invariant. A tie does not need a violated
  invariant.
\<close>

theorem computeOwnerDevice_tie_without_violation:
  "deviceSetInvariant [''root/a/b'', ''root//a/b'']
   \<and> ''root/a/b'' \<noteq> ''root//a/b''
   \<and> getPathRelation ''root/a/b'' ''root/a/b/pt'' = Ancestor
   \<and> getPathRelation ''root//a/b'' ''root/a/b/pt'' = Ancestor
   \<and> getPathRelation ''root/a/b'' ''root//a/b'' = Same
   \<and> deviceDepth ''root/a/b'' = deviceDepth ''root//a/b''
   \<and> computeOwnerDevice ''root/a/b/pt'' [''root/a/b'', ''root//a/b''] = Some ''root/a/b''"
  by (simp add: tie_example_invariant tie_example_relation tie_example_depth tie_example_owner)

text \<open>
  C10, amended. In \<open>computeOwnerDevice\<close> the depth of a candidate is the number of
  non-empty pieces of the raw device path between slashes: the depths of the two sides of
  a slash add up, and a non-empty string without a slash has depth one, so the leading
  \<open>root\<close> counts and a backslash separates nothing. A qualifying candidate replaces
  the current best only when it is strictly deeper: a device is returned exactly when it
  qualifies, every qualifying device before it in the list is strictly shallower and every
  qualifying device after it is at most as deep. So of two qualifying devices of equal,
  greatest depth the earlier one is returned. Two devices that qualify for one point are
  never \<open>Disjoint\<close>; two distinct keys of the folder tree that qualify for one point
  never have equal depth, so a tie needs a device path that is not such a key; it does
  not need a violated invariant.
\<close>

theorem computeOwnerDevice_first_of_greatest_raw_depth:
  "deviceDepth (x @ CHR ''/'' # y) = deviceDepth x + deviceDepth y
   \<and> (CHR ''/'' \<notin> set x \<longrightarrow> deviceDepth x = (if x = [] then 0 else 1))
   \<and> (computeOwnerDevice p devs = Some ow \<longleftrightarrow>
        (\<exists>pre post. devs = pre @ ow # post
           \<and> (getPathRelation ow p = Ancestor \<or> getPathRelation ow p = Same)
           \<and> (\<forall>d \<in> set pre. getPathRelation d p = Ancestor \<or> getPathRelation d p = Same
                 \<longrightarrow> deviceDepth d < deviceDepth ow)
           \<and> (\<forall>d \<in> set post. getPathRelation d p = Ancestor \<or> getPathRelation d p = Same
                 \<longrightarrow> deviceDepth d \<le> deviceDepth ow)))
   \<and> (qualifies p d1 \<and> qualifies p d2 \<longrightarrow> getPathRelation d1 d2 \<noteq> Disjoint)
   \<and> (isTreeKey d1 \<and> isTreeKey d2 \<and> qualifies p d1 \<and> qualifies p d2 \<and> d1 \<noteq> d2
        \<longrightarrow> deviceDepth d1 \<noteq> deviceDepth d2)"
proof -
  have 1: "deviceDepth (x @ CHR ''/'' # y) = deviceDepth x + deviceDepth y"
    by (rule deviceDepth_slash)
  have 2: "CHR ''/'' \<notin> set x \<longrightarrow> deviceDepth x = (if x = [] then 0 else 1)"
    using deviceDepth_no_slash by blast
  have 3: "computeOwnerDevice p devs = Some ow \<longleftrightarrow>
        (\<exists>pre post. devs = pre @ ow # post
           \<and> (getPathRelation ow p = Ancestor \<or> getPathRelation ow p = Same)
           \<and> (\<forall>d \<in> set pre. getPathRelation d p = Ancestor \<or> getPathRelation d p = Same
                 \<longrightarrow> deviceDepth d < deviceDepth ow)
           \<and> (\<forall>d \<in> set post. getPathRelation d p = Ancestor \<or> getPathRelation d p = Same
                 \<longrightarrow> deviceDepth d \<le> deviceDepth ow))"
    unfolding computeOwnerDevice_Some_iff qualifies_def by (rule refl)
  have 4: "qualifies p d1 \<and> qualifies p d2 \<longrightarrow> getPathRelation d1 d2 \<noteq> Disjoint"
    using qualifies_not_Disjoint by blast
  have 5: "isTreeKey d1 \<and> isTreeKey d2 \<and> qualifies p d1 \<and> qualifies p d2 \<and> d1 \<noteq> d2
        \<longrightarrow> deviceDepth d1 \<noteq> deviceDepth d2"
    using treeKey_qualifying_distinct [of d1 d2 p] by (auto simp: isTreeKey_depth)
  from 1 2 3 4 5 show ?thesis by blast
qed

theorem computeOwnerDevice_first_of_greatest_raw_depth_witness:
  "computeOwnerDevice ''root/a/b/pt'' [''root/a/b'', ''root//a/b''] = Some ''root/a/b''
   \<and> computeOwnerDevice ''root/a/b/pt'' [''root//a/b'', ''root/a/b''] = Some ''root//a/b''
   \<and> deviceDepth ''root/a/b'' \<le> deviceDepth ''root//a/b''
   \<and> deviceDepth ''root//a/b'' \<le> deviceDepth ''root/a/b''
   \<and> deviceDepth ''root/a'' = 2
   \<and> deviceDepth (''root'' @ [CHR 0x5C] @ ''a'') = 1
   \<and> getPathRelation ''root/a/b'' ''root//a/b'' \<noteq> Disjoint"
proof -
  note returned = computeOwnerDevice_first_of_greatest_raw_depth
      [THEN conjunct2, THEN conjunct2, THEN conjunct1, THEN iffD2]
  note sum = computeOwnerDevice_first_of_greatest_raw_depth [THEN conjunct1]
  note single = computeOwnerDevice_first_of_greatest_raw_depth
      [THEN conjunct2, THEN conjunct1, rule_format]
  note related = computeOwnerDevice_first_of_greatest_raw_depth
      [THEN conjunct2, THEN conjunct2, THEN conjunct2, THEN conjunct1, rule_format]
  have q: "getPathRelation ''root/a/b'' ''root/a/b/pt'' = Ancestor
             \<or> getPathRelation ''root/a/b'' ''root/a/b/pt'' = Same"
    "getPathRelation ''root//a/b'' ''root/a/b/pt'' = Ancestor
             \<or> getPathRelation ''root//a/b'' ''root/a/b/pt'' = Same"
    by (simp_all add: tie_example_relation)
  have d: "deviceDepth ''root/a/b'' \<le> deviceDepth ''root//a/b''"
    "deviceDepth ''root//a/b'' \<le> deviceDepth ''root/a/b''"
    by (simp_all add: tie_example_depth)
  have "\<exists>pre post. [''root/a/b'', ''root//a/b''] = pre @ ''root/a/b'' # post
           \<and> (getPathRelation ''root/a/b'' ''root/a/b/pt'' = Ancestor
                \<or> getPathRelation ''root/a/b'' ''root/a/b/pt'' = Same)
           \<and> (\<forall>d \<in> set pre. getPathRelation d ''root/a/b/pt'' = Ancestor
                    \<or> getPathRelation d ''root/a/b/pt'' = Same
                 \<longrightarrow> deviceDepth d < deviceDepth ''root/a/b'')
           \<and> (\<forall>d \<in> set post. getPathRelation d ''root/a/b/pt'' = Ancestor
                    \<or> getPathRelation d ''root/a/b/pt'' = Same
                 \<longrightarrow> deviceDepth d \<le> deviceDepth ''root/a/b'')"
    using q(1) d(2) by (intro exI [of _ "[]"] exI [of _ "[''root//a/b'']"]) simp
  then have first: "computeOwnerDevice ''root/a/b/pt'' [''root/a/b'', ''root//a/b''] = Some ''root/a/b''"
    by (rule returned)
  have "\<exists>pre post. [''root//a/b'', ''root/a/b''] = pre @ ''root//a/b'' # post
           \<and> (getPathRelation ''root//a/b'' ''root/a/b/pt'' = Ancestor
                \<or> getPathRelation ''root//a/b'' ''root/a/b/pt'' = Same)
           \<and> (\<forall>d \<in> set pre. getPathRelation d ''root/a/b/pt'' = Ancestor
                    \<or> getPathRelation d ''root/a/b/pt'' = Same
                 \<longrightarrow> deviceDepth d < deviceDepth ''root//a/b'')
           \<and> (\<forall>d \<in> set post. getPathRelation d ''root/a/b/pt'' = Ancestor
                    \<or> getPathRelation d ''root/a/b/pt'' = Same
                 \<longrightarrow> deviceDepth d \<le> deviceDepth ''root//a/b'')"
    using q(2) d(1) by (intro exI [of _ "[]"] exI [of _ "[''root/a/b'']"]) simp
  then have swapped: "computeOwnerDevice ''root/a/b/pt'' [''root//a/b'', ''root/a/b''] = Some ''root//a/b''"
    by (rule returned)
  have one: "deviceDepth ''root'' = 1" "deviceDepth ''a'' = 1"
    using single [of "''root''"] single [of "''a''"] by simp_all
  have bs: "deviceDepth (''root'' @ [CHR 0x5C] @ ''a'') = 1"
    using single [of "''root'' @ [CHR 0x5C] @ ''a''"] by simp
  have "deviceDepth (''root'' @ CHR ''/'' # ''a'') = deviceDepth ''root'' + deviceDepth ''a''"
    by (rule sum)
  with one have two: "deviceDepth ''root/a'' = 2" by simp
  have rel: "getPathRelation ''root/a/b'' ''root//a/b'' \<noteq> Disjoint"
    using conjI [OF tie_example_qualifies] by (rule related)
  from first swapped d two bs rel show ?thesis
    by (intro conjI)
qed

section \<open>The conflict planner\<close>

lemma Ancestor_neq: "getPathRelation a b = Ancestor \<Longrightarrow> a \<noteq> b"
  by (auto simp: getPathRelation_Ancestor)

lemma isAncestorOfAnotherSelected_iff:
  "isAncestorOfAnotherSelected sel c \<longleftrightarrow> (\<exists>other \<in> set sel. getPathRelation c other = Ancestor)"
  unfolding isAncestorOfAnotherSelected_def list_ex_iff using Ancestor_neq by blast

lemma devicePaths_devicePathsEffects [simp]:
  "devicePaths (devicePathsEffects st) = devicePaths st"
  by (simp add: devicePathsEffects_def)

lemma other_fields_devicePathsEffects [simp]:
  "points (devicePathsEffects st) = points st"
  "selectedPaths (devicePathsEffects st) = selectedPaths st"
  "hiddenFolderPaths (devicePathsEffects st) = hiddenFolderPaths st"
  "pendingConflict (devicePathsEffects st) = pendingConflict st"
  "openReassignGroups (devicePathsEffects st) = openReassignGroups st"
  "pendingMerge (devicePathsEffects st) = pendingMerge st"
  "mergeName (devicePathsEffects st) = mergeName st"
  by (simp_all add: devicePathsEffects_def)

lemma mergedDevices_devicePathsEffects:
  "mergedDevices (devicePathsEffects st) = pruneMergedDevices (devicePaths st) (mergedDevices st)"
  by (simp add: devicePathsEffects_def)

lemma conflictScan_no_adds: "conflictScan ds [] = ([], [], [])"
  unfolding conflictScan_def by (induction ds) simp_all

lemma markSelectionAsDevices_empty: "selectedPaths st = [] \<Longrightarrow> markSelectionAsDevices lc st = st"
  by (simp add: markSelectionAsDevices_def)

lemma markSelectionAsDevices_staged:
  assumes "selectedPaths st \<noteq> []"
    and "snd (snd (conflictScan (devicePaths st) (selectionToAdd (newSet (selectedPaths st))))) \<noteq> []
         \<or> selectionDropped (newSet (selectedPaths st)) \<noteq> []"
  shows "markSelectionAsDevices lc st =
     st\<lparr>pendingConflict :=
          Some \<lparr>toAdd = sortWith lc (selectionToAdd (newSet (selectedPaths st))),
                toRemove = sortWith lc (snd (snd (conflictScan (devicePaths st)
                             (selectionToAdd (newSet (selectedPaths st)))))),
                droppedFromSelection = sortWith lc (selectionDropped (newSet (selectedPaths st))),
                upstreamConflicts = sortWith lc (fst (conflictScan (devicePaths st)
                             (selectionToAdd (newSet (selectedPaths st))))),
                downstreamConflicts = sortWith lc (fst (snd (conflictScan (devicePaths st)
                             (selectionToAdd (newSet (selectedPaths st)))))),
                reassignmentGroups =
                  computeReassignmentGroups lc (points st) (devicePaths st)
                    (newSet (filter (\<lambda>p. p \<notin> set (snd (snd (conflictScan (devicePaths st)
                                 (selectionToAdd (newSet (selectedPaths st)))))))
                               (devicePaths st)
                             @ selectionToAdd (newSet (selectedPaths st))))\<rparr>,
        openReassignGroups := Map.empty\<rparr>"
  using assms unfolding markSelectionAsDevices_def Let_def
  by (simp add: sortWith_eq_Nil)

lemma markSelectionAsDevices_immediate:
  assumes "selectedPaths st \<noteq> []"
    and "snd (snd (conflictScan (devicePaths st) (selectionToAdd (newSet (selectedPaths st))))) = []"
    and "selectionDropped (newSet (selectedPaths st)) = []"
  shows "markSelectionAsDevices lc st =
     (addDevices (selectionToAdd (newSet (selectedPaths st))) st)\<lparr>selectedPaths := []\<rparr>"
  using assms unfolding markSelectionAsDevices_def Let_def
  by (simp add: sortWith_eq_Nil)

lemma selection_partition:
  "set (selectionDropped sel) \<union> set (selectionToAdd sel) = set sel"
  "set (selectionDropped sel) \<inter> set (selectionToAdd sel) = {}"
  by (auto simp: selectionDropped_def selectionToAdd_def)

lemma selectionToAdd_no_drop: "selectionDropped sel = [] \<Longrightarrow> selectionToAdd sel = sel"
  unfolding selectionDropped_def selectionToAdd_def
  by (simp add: filter_empty_conv)

lemma dropped_example: "selectionDropped [''root/X'', ''root/X/Y''] = [''root/X'']"
  by code_simp

lemma toAdd_example: "selectionToAdd [''root/X'', ''root/X/Y''] = [''root/X/Y'']"
  by code_simp

lemma newSet_example: "newSet [''root/X'', ''root/X/Y''] = [''root/X'', ''root/X/Y'']"
  by code_simp

text \<open>
  C4. For a deduplicated selection the self-overlap resolution of the conflict planner
  splits the candidates in two lists, in selection order: the dropped candidates are
  exactly those that are an ancestor of some candidate of the selection (an ancestor is
  always another path), the candidates to add are exactly the others. When a candidate is
  dropped, the staged plan records the two lists separately, each sorted.
\<close>

theorem selection_self_overlap_resolution:
  "selectionDropped sel =
     filter (\<lambda>c. \<exists>other \<in> set sel. c \<noteq> other \<and> getPathRelation c other = Ancestor) sel
   \<and> selectionDropped sel = filter (\<lambda>c. \<exists>other \<in> set sel. getPathRelation c other = Ancestor) sel
   \<and> selectionToAdd sel =
       filter (\<lambda>c. \<not> (\<exists>other \<in> set sel. getPathRelation c other = Ancestor)) sel
   \<and> set (selectionDropped sel) \<union> set (selectionToAdd sel) = set sel
   \<and> set (selectionDropped sel) \<inter> set (selectionToAdd sel) = {}
   \<and> (distinct (selectedPaths st) \<and> selectionDropped (selectedPaths st) \<noteq> [] \<longrightarrow>
        map_option droppedFromSelection (pendingConflict (markSelectionAsDevices lc st))
          = Some (sortWith lc (selectionDropped (selectedPaths st)))
        \<and> map_option toAdd (pendingConflict (markSelectionAsDevices lc st))
          = Some (sortWith lc (selectionToAdd (selectedPaths st))))"
proof (intro conjI impI)
  show "selectionDropped sel =
     filter (\<lambda>c. \<exists>other \<in> set sel. c \<noteq> other \<and> getPathRelation c other = Ancestor) sel"
    unfolding selectionDropped_def
    by (rule filter_cong) (simp_all add: isAncestorOfAnotherSelected_def list_ex_iff)
  show "selectionDropped sel = filter (\<lambda>c. \<exists>other \<in> set sel. getPathRelation c other = Ancestor) sel"
    unfolding selectionDropped_def
    by (rule filter_cong) (simp_all add: isAncestorOfAnotherSelected_iff)
  show "selectionToAdd sel =
       filter (\<lambda>c. \<not> (\<exists>other \<in> set sel. getPathRelation c other = Ancestor)) sel"
    unfolding selectionToAdd_def
    by (rule filter_cong) (simp_all add: isAncestorOfAnotherSelected_iff)
  show "set (selectionDropped sel) \<union> set (selectionToAdd sel) = set sel"
    by (rule selection_partition)
  show "set (selectionDropped sel) \<inter> set (selectionToAdd sel) = {}"
    by (rule selection_partition)
next
  assume a: "distinct (selectedPaths st) \<and> selectionDropped (selectedPaths st) \<noteq> []"
  then have u: "newSet (selectedPaths st) = selectedPaths st"
    by (simp add: newSet_distinct)
  from a have ne: "selectedPaths st \<noteq> []"
    by (auto simp: selectionDropped_def)
  note s = markSelectionAsDevices_staged [of st lc, unfolded u, OF ne disjI2, OF conjunct2 [OF a]]
  show "map_option droppedFromSelection (pendingConflict (markSelectionAsDevices lc st))
          = Some (sortWith lc (selectionDropped (selectedPaths st)))"
    by (subst s) simp
  show "map_option toAdd (pendingConflict (markSelectionAsDevices lc st))
          = Some (sortWith lc (selectionToAdd (selectedPaths st)))"
    by (subst s) simp
qed

theorem selection_self_overlap_resolution_witness:
  "selectionDropped [''root/X'', ''root/X/Y''] = [''root/X'']
   \<and> selectionToAdd [''root/X'', ''root/X/Y''] = [''root/X/Y'']
   \<and> map_option droppedFromSelection
        (pendingConflict (markSelectionAsDevices byteCompare
           (exampleState [] [''root/X'', ''root/X/Y'']))) = Some [''root/X'']
   \<and> map_option toAdd
        (pendingConflict (markSelectionAsDevices byteCompare
           (exampleState [] [''root/X'', ''root/X/Y'']))) = Some [''root/X/Y'']"
proof -
  let ?st = "exampleState [] [''root/X'', ''root/X/Y'']"
  have sel: "selectedPaths ?st = [''root/X'', ''root/X/Y'']"
    by (simp add: exampleState_def)
  have pre: "distinct (selectedPaths ?st) \<and> selectionDropped (selectedPaths ?st) \<noteq> []"
    unfolding sel dropped_example by simp
  have s1: "sortWith byteCompare [''root/X''] = [''root/X'']"
    and s2: "sortWith byteCompare [''root/X/Y''] = [''root/X/Y'']"
    by (simp_all add: sortWith_def)
  note t = selection_self_overlap_resolution [of "[''root/X'', ''root/X/Y'']" ?st byteCompare]
  note plan = t [THEN conjunct2, THEN conjunct2, THEN conjunct2, THEN conjunct2, THEN conjunct2,
                 THEN mp, OF pre, unfolded sel dropped_example toAdd_example s1 s2]
  from plan show ?thesis
    unfolding dropped_example toAdd_example by simp
qed

lemma selectedPaths_reset: "selectedPaths st = [] \<Longrightarrow> st\<lparr>selectedPaths := []\<rparr> = st"
  by (cases st) simp

lemma addDevices_Nil: "addDevices [] st = st"
  by (simp add: addDevices_def)

lemma devicePaths_addDevices:
  "devicePaths (addDevices adds st) =
     (if adds = [] then devicePaths st else foldl setAdd (newSet (devicePaths st)) adds)"
  by (simp add: addDevices_def)

lemma set_devicePaths_addDevices:
  "set (devicePaths (addDevices adds st)) = set (devicePaths st) \<union> set adds"
  by (simp add: devicePaths_addDevices set_foldl_setAdd set_newSet)

lemma pendingConflict_addDevices: "pendingConflict (addDevices adds st) = pendingConflict st"
  by (simp add: addDevices_def)

text \<open>
  C6. Marking the selection as devices applies the change at once, and stages no plan,
  exactly when the computed set of paths to remove and the list of candidates dropped from
  the selection are both empty: the device set then becomes the old one with the selection
  added, and the pending plan is left as it was. Otherwise a plan with the candidates to
  add, the paths to remove and the dropped candidates is staged, and the device set, the
  merged devices and the hidden folders are unchanged. Cancelling a plan clears it and
  changes none of the three.
\<close>

theorem markSelectionAsDevices_applies_or_stages:
  "(let sel = newSet (selectedPaths st);
        dropped = selectionDropped sel;
        adds = selectionToAdd sel;
        removes = snd (snd (conflictScan (devicePaths st) adds))
    in (removes = [] \<and> dropped = [] \<longrightarrow>
          markSelectionAsDevices lc st = (addDevices adds st)\<lparr>selectedPaths := []\<rparr>
          \<and> pendingConflict (markSelectionAsDevices lc st) = pendingConflict st
          \<and> set (devicePaths (markSelectionAsDevices lc st))
              = set (devicePaths st) \<union> set (selectedPaths st))
     \<and> (\<not> (removes = [] \<and> dropped = []) \<longrightarrow>
          devicePaths (markSelectionAsDevices lc st) = devicePaths st
          \<and> mergedDevices (markSelectionAsDevices lc st) = mergedDevices st
          \<and> hiddenFolderPaths (markSelectionAsDevices lc st) = hiddenFolderPaths st
          \<and> map_option toAdd (pendingConflict (markSelectionAsDevices lc st))
              = Some (sortWith lc adds)
          \<and> map_option toRemove (pendingConflict (markSelectionAsDevices lc st))
              = Some (sortWith lc removes)
          \<and> map_option droppedFromSelection (pendingConflict (markSelectionAsDevices lc st))
              = Some (sortWith lc dropped)))
   \<and> devicePaths (cancelDeviceConflict st) = devicePaths st
   \<and> mergedDevices (cancelDeviceConflict st) = mergedDevices st
   \<and> hiddenFolderPaths (cancelDeviceConflict st) = hiddenFolderPaths st
   \<and> pendingConflict (cancelDeviceConflict st) = None"
proof -
  define sel where "sel = newSet (selectedPaths st)"
  define dropped where "dropped = selectionDropped sel"
  define adds where "adds = selectionToAdd sel"
  define removes where "removes = snd (snd (conflictScan (devicePaths st) adds))"
  have immediate:
    "markSelectionAsDevices lc st = (addDevices adds st)\<lparr>selectedPaths := []\<rparr>
     \<and> pendingConflict (markSelectionAsDevices lc st) = pendingConflict st
     \<and> set (devicePaths (markSelectionAsDevices lc st))
         = set (devicePaths st) \<union> set (selectedPaths st)"
    if e: "removes = [] \<and> dropped = []"
  proof (cases "selectedPaths st = []")
    case True
    then have "sel = []" "adds = []"
      by (simp_all add: sel_def adds_def newSet_def selectionToAdd_def)
    with True show ?thesis
      by (simp add: markSelectionAsDevices_empty addDevices_Nil selectedPaths_reset)
  next
    case False
    from e have "selectionDropped sel = []" by (simp add: dropped_def)
    then have "adds = sel" by (simp add: adds_def selectionToAdd_no_drop)
    have m: "markSelectionAsDevices lc st = (addDevices adds st)\<lparr>selectedPaths := []\<rparr>"
      using markSelectionAsDevices_immediate [OF False, of lc] e
      by (simp add: removes_def adds_def dropped_def sel_def)
    show ?thesis
      unfolding m
      by (simp add: pendingConflict_addDevices set_devicePaths_addDevices \<open>adds = sel\<close>
            sel_def set_newSet)
  qed
  have staged:
    "devicePaths (markSelectionAsDevices lc st) = devicePaths st
     \<and> mergedDevices (markSelectionAsDevices lc st) = mergedDevices st
     \<and> hiddenFolderPaths (markSelectionAsDevices lc st) = hiddenFolderPaths st
     \<and> map_option toAdd (pendingConflict (markSelectionAsDevices lc st)) = Some (sortWith lc adds)
     \<and> map_option toRemove (pendingConflict (markSelectionAsDevices lc st))
         = Some (sortWith lc removes)
     \<and> map_option droppedFromSelection (pendingConflict (markSelectionAsDevices lc st))
         = Some (sortWith lc dropped)"
    if e: "\<not> (removes = [] \<and> dropped = [])"
  proof -
    have ne: "selectedPaths st \<noteq> []"
    proof
      assume "selectedPaths st = []"
      then have "sel = []" by (simp add: sel_def newSet_def)
      then have "dropped = []" "adds = []"
        by (simp_all add: dropped_def adds_def selectionDropped_def selectionToAdd_def)
      then have "removes = []" by (simp add: removes_def conflictScan_no_adds)
      with \<open>dropped = []\<close> e show False by simp
    qed
    have c: "snd (snd (conflictScan (devicePaths st) (selectionToAdd (newSet (selectedPaths st))))) \<noteq> []
         \<or> selectionDropped (newSet (selectedPaths st)) \<noteq> []"
      using e by (simp add: removes_def adds_def dropped_def sel_def)
    note s = markSelectionAsDevices_staged [OF ne c, of lc]
    show ?thesis
      by (subst s)+ (simp add: removes_def adds_def dropped_def sel_def)
  qed
  have cancel: "devicePaths (cancelDeviceConflict st) = devicePaths st
   \<and> mergedDevices (cancelDeviceConflict st) = mergedDevices st
   \<and> hiddenFolderPaths (cancelDeviceConflict st) = hiddenFolderPaths st
   \<and> pendingConflict (cancelDeviceConflict st) = None"
    by (simp add: cancelDeviceConflict_def)
  from immediate staged cancel show ?thesis
    unfolding Let_def sel_def [symmetric] dropped_def [symmetric] adds_def [symmetric]
      removes_def [symmetric]
    by blast
qed

lemma staged_example_eval:
  "newSet [''root/A/sub''] = [''root/A/sub'']"
  "selectionDropped [''root/A/sub''] = []"
  "selectionToAdd [''root/A/sub''] = [''root/A/sub'']"
  "conflictScan [''root/A''] [''root/A/sub''] = ([''root/A''], [], [''root/A''])"
  by code_simp+

lemma immediate_example_eval:
  "newSet [''root/A''] = [''root/A'']"
  "selectionDropped [''root/A''] = []"
  "selectionToAdd [''root/A''] = [''root/A'']"
  "conflictScan [] [''root/A''] = ([], [], [])"
  by code_simp+

lemma exampleState_fields:
  "selectedPaths (exampleState devs sel) = sel"
  "devicePaths (exampleState devs sel) = devs"
  "pendingConflict (exampleState devs sel) = None"
  by (simp_all add: exampleState_def)

theorem markSelectionAsDevices_applies_or_stages_witness:
  "devicePaths (markSelectionAsDevices byteCompare (exampleState [''root/A''] [''root/A/sub'']))
     = [''root/A'']
   \<and> map_option toAdd (pendingConflict
        (markSelectionAsDevices byteCompare (exampleState [''root/A''] [''root/A/sub''])))
       = Some [''root/A/sub'']
   \<and> map_option toRemove (pendingConflict
        (markSelectionAsDevices byteCompare (exampleState [''root/A''] [''root/A/sub''])))
       = Some [''root/A'']
   \<and> set (devicePaths (markSelectionAsDevices byteCompare (exampleState [] [''root/A''])))
       = {''root/A''}
   \<and> pendingConflict (markSelectionAsDevices byteCompare (exampleState [] [''root/A''])) = None"
proof -
  have s: "sortWith byteCompare [''root/A/sub''] = [''root/A/sub'']"
    "sortWith byteCompare [''root/A''] = [''root/A'']"
    "sortWith byteCompare ([] :: string list) = []"
    by (simp_all add: sortWith_def)
  note staged = markSelectionAsDevices_applies_or_stages
      [of "exampleState [''root/A''] [''root/A/sub'']" byteCompare,
       unfolded Let_def exampleState_fields staged_example_eval snd_conv fst_conv s,
       THEN conjunct1, THEN conjunct2]
  note immediate = markSelectionAsDevices_applies_or_stages
      [of "exampleState [] [''root/A'']" byteCompare,
       unfolded Let_def exampleState_fields immediate_example_eval snd_conv fst_conv s,
       THEN conjunct1, THEN conjunct1, simplified, THEN conjunct2]
  from staged immediate show ?thesis by simp
qed

section \<open>Merged devices\<close>

lemma pruneMergedStep_fold:
  "fst (foldl (pruneMergedStep D) acc prev) = fst acc @ prunedGroups D prev"
proof (induction prev arbitrary: acc)
  case Nil
  then show ?case by (simp add: prunedGroups_def)
next
  case (Cons md prev)
  show ?case
    by (simp add: Cons.IH) (simp add: pruneMergedStep_def prunedGroups_def Let_def)
qed

lemma pruneMergedStep_flag_mono:
  "snd acc \<Longrightarrow> snd (foldl (pruneMergedStep D) acc prev)"
  by (induction prev arbitrary: acc) (simp_all add: pruneMergedStep_def Let_def)

lemma filter_same_length: "length (filter P xs) = length xs \<Longrightarrow> filter P xs = xs"
  by (metis filter_True length_filter_less less_irrefl_nat)

lemma pruneMergedStep_unchanged:
  "\<not> snd (foldl (pruneMergedStep D) acc prev) \<Longrightarrow> prunedGroups D prev = prev"
proof (induction prev arbitrary: acc)
  case Nil
  then show ?case by (simp add: prunedGroups_def)
next
  case (Cons md prev)
  let ?kept = "filter (\<lambda>p. p \<in> set D) (memberPaths md)"
  from Cons.prems have n: "\<not> snd (foldl (pruneMergedStep D) (pruneMergedStep D acc md) prev)"
    by simp
  then have "\<not> snd (pruneMergedStep D acc md)"
    using pruneMergedStep_flag_mono by blast
  then have k: "?kept \<noteq> []" "length ?kept = length (memberPaths md)"
    by (auto simp: pruneMergedStep_def Let_def split: if_splits)
  then have "?kept = memberPaths md" by (simp add: filter_same_length)
  then have "md\<lparr>memberPaths := ?kept\<rparr> = md" by simp
  moreover have "memberPaths md \<noteq> []" using k \<open>?kept = memberPaths md\<close> by simp
  moreover have "prunedGroups D prev = prev" using Cons.IH [OF n] .
  ultimately show ?case
    unfolding prunedGroups_def by simp
qed

lemma pruneMergedDevices_eq: "pruneMergedDevices D prev = prunedGroups D prev"
proof (cases "snd (foldl (pruneMergedStep D) ([], False) prev)")
  case True
  then show ?thesis
    by (simp add: pruneMergedDevices_def Let_def pruneMergedStep_fold)
next
  case False
  then show ?thesis
    using pruneMergedStep_unchanged [OF False]
    by (simp add: pruneMergedDevices_def Let_def)
qed

lemma length_filter_mono:
  "(\<And>x. x \<in> set xs \<Longrightarrow> P x \<Longrightarrow> Q x) \<Longrightarrow> length (filter P xs) \<le> length (filter Q xs)"
  by (induction xs) auto

lemma mergeUnique_filter: "mergeUnique mds \<Longrightarrow> mergeUnique (filter P mds)"
proof -
  assume u: "mergeUnique mds"
  show ?thesis
    unfolding mergeUnique_def
  proof
    fix p
    have "length (filter (\<lambda>md. p \<in> set (memberPaths md)) (filter P mds))
        \<le> length (filter (\<lambda>md. p \<in> set (memberPaths md)) mds)"
      unfolding filter_filter by (rule length_filter_mono) simp
    with u show "length (filter (\<lambda>md. p \<in> set (memberPaths md)) (filter P mds)) \<le> 1"
      unfolding mergeUnique_def by (meson le_trans)
  qed
qed

lemma mergeUnique_shrink:
  assumes "mergeUnique mds" and "\<And>md. set (memberPaths (f md)) \<subseteq> set (memberPaths md)"
  shows "mergeUnique (map f mds)"
  unfolding mergeUnique_def
proof
  fix p
  have "length (filter (\<lambda>md. p \<in> set (memberPaths md)) (map f mds))
      = length (filter (\<lambda>md. p \<in> set (memberPaths (f md))) mds)"
    by (simp add: filter_map comp_def)
  also have "\<dots> \<le> length (filter (\<lambda>md. p \<in> set (memberPaths md)) mds)"
    using assms(2) by (intro length_filter_mono) auto
  finally show "length (filter (\<lambda>md. p \<in> set (memberPaths md)) (map f mds)) \<le> 1"
    using assms(1) unfolding mergeUnique_def by (meson le_trans)
qed

lemma mergeUnique_prunedGroups: "mergeUnique mds \<Longrightarrow> mergeUnique (prunedGroups D mds)"
  unfolding prunedGroups_def
  by (intro mergeUnique_filter mergeUnique_shrink) auto

lemma mergeUnique_pruneMergedDevices: "mergeUnique mds \<Longrightarrow> mergeUnique (pruneMergedDevices D mds)"
  by (simp add: pruneMergedDevices_eq mergeUnique_prunedGroups)














lemma devicePaths_removeDevices:
  "devicePaths (removeDevices ps st) =
     (if ps = [] then devicePaths st else filter (\<lambda>p. p \<notin> set ps) (devicePaths st))"
  by (simp add: removeDevices_def)




section \<open>Mutations that keep the Device-Set invariant\<close>

lemma deviceSetInvariant_iff:
  "deviceSetInvariant ds \<longleftrightarrow>
     (\<forall>a \<in> set ds. \<forall>b \<in> set ds. getPathRelation a b \<noteq> Ancestor \<and> getPathRelation a b \<noteq> Descendant)"
  by (simp add: deviceSetInvariant_def list_all_iff)

lemma deviceSetInvariant_removeDevices:
  "deviceSetInvariant (devicePaths st) \<Longrightarrow> deviceSetInvariant (devicePaths (removeDevices ps st))"
  by (simp add: deviceSetInvariant_iff devicePaths_removeDevices)

lemma conflictStep_removes:
  "set (snd (snd (foldl (conflictStep e) acc adds))) =
     set (snd (snd acc))
     \<union> (if \<exists>a \<in> set adds. getPathRelation e a = Ancestor \<or> getPathRelation e a = Descendant
        then {e} else {})"
proof (induction adds arbitrary: acc)
  case Nil
  then show ?case by simp
next
  case (Cons a adds)
  have "set (snd (snd (conflictStep e acc a))) =
      set (snd (snd acc))
      \<union> (if getPathRelation e a = Ancestor \<or> getPathRelation e a = Descendant then {e} else {})"
    by (simp add: conflictStep_def Let_def set_setAdd)
  then show ?case
    by (auto simp: Cons.IH)
qed

lemma conflictScan_fold_removes:
  "set (snd (snd (foldl (\<lambda>acc existing. foldl (conflictStep existing) acc adds) acc devs))) =
     set (snd (snd acc))
     \<union> {e \<in> set devs. \<exists>a \<in> set adds. getPathRelation e a = Ancestor \<or> getPathRelation e a = Descendant}"
proof (induction devs arbitrary: acc)
  case Nil
  then show ?case by simp
next
  case (Cons e devs)
  show ?case
    by (auto simp: Cons.IH conflictStep_removes)
qed

lemma conflictScan_removes:
  "set (snd (snd (conflictScan devs adds))) =
     {e \<in> set devs. \<exists>a \<in> set adds. getPathRelation e a = Ancestor \<or> getPathRelation e a = Descendant}"
  unfolding conflictScan_def conflictScan_fold_removes by simp

lemma Ancestor_iff_Descendant: "getPathRelation a b = Ancestor \<longleftrightarrow> getPathRelation b a = Descendant"
  by (simp add: getPathRelation_Descendant getPathRelation_Ancestor)

lemma selectionToAdd_unrelated:
  assumes "a \<in> set (selectionToAdd sel)" and "b \<in> set (selectionToAdd sel)"
  shows "getPathRelation a b \<noteq> Ancestor \<and> getPathRelation a b \<noteq> Descendant"
proof -
  from assms have "a \<in> set sel" "b \<in> set sel"
    and na: "\<not> isAncestorOfAnotherSelected sel a" and nb: "\<not> isAncestorOfAnotherSelected sel b"
    by (simp_all add: selectionToAdd_def)
  from na \<open>b \<in> set sel\<close> have "getPathRelation a b \<noteq> Ancestor"
    by (auto simp: isAncestorOfAnotherSelected_iff)
  moreover from nb \<open>a \<in> set sel\<close> have "getPathRelation b a \<noteq> Ancestor"
    by (auto simp: isAncestorOfAnotherSelected_iff)
  ultimately show ?thesis by (simp add: Ancestor_iff_Descendant)
qed

text \<open>
  The projected next device set of the conflict planner: the devices that are not removed,
  with the candidates to add. It keeps the invariant.
\<close>

lemma planned_devices_invariant:
  assumes inv: "deviceSetInvariant devs"
    and nx: "set nextDevs =
       (set devs - set (snd (snd (conflictScan devs (selectionToAdd sel))))) \<union> set (selectionToAdd sel)"
  shows "deviceSetInvariant nextDevs"
  unfolding deviceSetInvariant_iff
proof (intro ballI)
  fix a b
  assume "a \<in> set nextDevs" "b \<in> set nextDevs"
  let ?adds = "selectionToAdd sel"
  let ?rel = "\<lambda>x y. getPathRelation x y \<noteq> Ancestor \<and> getPathRelation x y \<noteq> Descendant"
  have kept_add: "?rel e x \<and> ?rel x e"
    if "e \<in> set devs" "e \<notin> set (snd (snd (conflictScan devs ?adds)))" "x \<in> set ?adds" for e x
  proof -
    from that have "?rel e x" unfolding conflictScan_removes by blast
    then show ?thesis by (simp add: Ancestor_iff_Descendant)
  qed
  from \<open>a \<in> set nextDevs\<close> \<open>b \<in> set nextDevs\<close>
  consider (dd) "a \<in> set devs" "b \<in> set devs"
    | (da) "a \<in> set devs" "a \<notin> set (snd (snd (conflictScan devs ?adds)))" "b \<in> set ?adds"
    | (ad) "b \<in> set devs" "b \<notin> set (snd (snd (conflictScan devs ?adds)))" "a \<in> set ?adds"
    | (aa) "a \<in> set ?adds" "b \<in> set ?adds"
    unfolding nx by blast
  then show "?rel a b"
  proof cases
    case dd
    with inv show ?thesis unfolding deviceSetInvariant_iff by blast
  next
    case da
    then show ?thesis using kept_add by blast
  next
    case ad
    then show ?thesis using kept_add by blast
  next
    case aa
    then show ?thesis by (rule selectionToAdd_unrelated)
  qed
qed

lemma deviceSetInvariant_markSelectionAsDevices:
  assumes "deviceSetInvariant (devicePaths st)"
  shows "deviceSetInvariant (devicePaths (markSelectionAsDevices lc st))"
proof -
  let ?sel = "newSet (selectedPaths st)"
  let ?removes = "snd (snd (conflictScan (devicePaths st) (selectionToAdd ?sel)))"
  consider (empty) "selectedPaths st = []"
    | (staged) "selectedPaths st \<noteq> []" "?removes \<noteq> [] \<or> selectionDropped ?sel \<noteq> []"
    | (immediate) "selectedPaths st \<noteq> []" "?removes = []" "selectionDropped ?sel = []"
    by blast
  then show ?thesis
  proof cases
    case empty
    then show ?thesis using assms by (simp add: markSelectionAsDevices_empty)
  next
    case staged
    show ?thesis
      by (subst markSelectionAsDevices_staged [OF staged]) (simp add: assms)
  next
    case immediate
    have "set (devicePaths (addDevices (selectionToAdd ?sel) st)) =
        (set (devicePaths st) - set ?removes) \<union> set (selectionToAdd ?sel)"
      using immediate(2) by (simp add: set_devicePaths_addDevices)
    then have "deviceSetInvariant (devicePaths (addDevices (selectionToAdd ?sel) st))"
      by (rule planned_devices_invariant [OF assms])
    then show ?thesis
      by (subst markSelectionAsDevices_immediate [OF immediate]) simp
  qed
qed

text \<open>
  Applying the plan that \<open>markSelectionAsDevices\<close> stages on the current device set
  keeps the invariant.
\<close>

lemma deviceSetInvariant_plan_application:
  assumes "deviceSetInvariant (devicePaths st)" and "pendingConflict st = None"
  shows "deviceSetInvariant (devicePaths (confirmDeviceConflict (markSelectionAsDevices lc st)))"
proof -
  let ?sel = "newSet (selectedPaths st)"
  let ?adds = "selectionToAdd ?sel"
  let ?removes = "snd (snd (conflictScan (devicePaths st) ?adds))"
  consider (empty) "selectedPaths st = []"
    | (staged) "selectedPaths st \<noteq> []" "?removes \<noteq> [] \<or> selectionDropped ?sel \<noteq> []"
    | (immediate) "selectedPaths st \<noteq> []" "?removes = []" "selectionDropped ?sel = []"
    by blast
  then show ?thesis
  proof cases
    case empty
    then show ?thesis
      using assms by (simp add: markSelectionAsDevices_empty confirmDeviceConflict_def)
  next
    case immediate
    have "pendingConflict (markSelectionAsDevices lc st) = None"
      by (subst markSelectionAsDevices_immediate [OF immediate])
         (simp add: pendingConflict_addDevices assms(2))
    then have "confirmDeviceConflict (markSelectionAsDevices lc st) = markSelectionAsDevices lc st"
      by (simp add: confirmDeviceConflict_def)
    then show ?thesis
      using deviceSetInvariant_markSelectionAsDevices [OF assms(1)] by simp
  next
    case staged
    have "set (devicePaths (confirmDeviceConflict (markSelectionAsDevices lc st))) =
        (set (devicePaths st) - set ?removes) \<union> set ?adds"
      by (subst markSelectionAsDevices_staged [OF staged])
         (auto simp: confirmDeviceConflict_def applyDeviceChange_def set_foldl_setAdd set_newSet
            set_sortWith)
    then show ?thesis
      by (rule planned_devices_invariant [OF assms(1)])
  qed
qed

section \<open>Merge confirmation and the Device-Set invariant\<close>

text \<open>
  C1. Merge confirmation adds every staged member to the device set without looking at
  overlaps. From the empty device set, beginning a merge of the folders \<open>root/A\<close> and
  \<open>root/A/B\<close> (the side bar offers it for any two selected folders that are not devices)
  and confirming it gives a device set in which \<open>root/A\<close> is an ancestor of \<open>root/A/B\<close>:
  the invariant held before and fails after.
\<close>

theorem confirmMergeDevices_breaks_invariant:
  "deviceSetInvariant (devicePaths (exampleState [] []))
   \<and> devicePaths (run byteCompare (exampleState [] []) overlappingMergeActions)
       = [''root/A'', ''root/A/B'']
   \<and> getPathRelation ''root/A'' ''root/A/B'' = Ancestor
   \<and> \<not> deviceSetInvariant (devicePaths (run byteCompare (exampleState [] [])
                                           overlappingMergeActions))"
  by (intro conjI; code_simp)

section \<open>Reassignment groups\<close>

lemma reassignmentStep_eq:
  "reassignmentStep cur nxt m pt =
     (if reassigned cur nxt (path_pt pt)
      then groupMapAdd m (ownerKey cur nxt (path_pt pt))
             (computeOwnerDevice (path_pt pt) cur) (computeOwnerDevice (path_pt pt) nxt) (path_pt pt)
      else m)"
  unfolding reassignmentStep_def reassigned_def ownerKey_def Let_def
  by (cases "computeOwnerDevice (path_pt pt) cur"; cases "computeOwnerDevice (path_pt pt) nxt") auto

lemma groupMapAdd_points:
  "(\<Union>e \<in> set (groupMapAdd m k f t p). set (snd (snd (snd e)))) =
     insert p (\<Union>e \<in> set m. set (snd (snd (snd e))))"
proof (cases "map_of m k")
  case None
  then show ?thesis by (simp add: groupMapAdd_def)
next
  case (Some g)
  then have "k \<in> fst ` set m" by (metis map_of_eq_None_iff option.distinct(1))
  then obtain e where e: "e \<in> set m" "fst e = k" by auto
  show ?thesis
  proof (intro set_eqI iffI)
    fix x
    assume "x \<in> (\<Union>e \<in> set (groupMapAdd m k f t p). set (snd (snd (snd e))))"
    then show "x \<in> insert p (\<Union>e \<in> set m. set (snd (snd (snd e))))"
      using Some by (auto simp: groupMapAdd_def set_setAdd split: if_splits)
  next
    fix x
    assume x: "x \<in> insert p (\<Union>e \<in> set m. set (snd (snd (snd e))))"
    let ?u = "\<lambda>e. if fst e = k
                    then (fst e, fst (snd e), fst (snd (snd e)), setAdd (snd (snd (snd e))) p)
                    else e"
    have m: "set (groupMapAdd m k f t p) = ?u ` set m"
      using Some by (simp add: groupMapAdd_def)
    from x consider "x = p" | e' where "e' \<in> set m" "x \<in> set (snd (snd (snd e')))" by auto
    then show "x \<in> (\<Union>e \<in> set (groupMapAdd m k f t p). set (snd (snd (snd e))))"
    proof cases
      case 1
      have "?u e \<in> set (groupMapAdd m k f t p)" using e m by blast
      moreover have "x \<in> set (snd (snd (snd (?u e))))" using e 1 by (simp add: set_setAdd)
      ultimately show ?thesis by blast
    next
      case 2
      have "?u e' \<in> set (groupMapAdd m k f t p)" using 2 m by blast
      moreover have "x \<in> set (snd (snd (snd (?u e'))))" using 2 by (simp add: set_setAdd)
      ultimately show ?thesis by blast
    qed
  qed
qed

lemma groupMapOk_add:
  assumes "groupMapOk cur nxt m" and "reassigned cur nxt p"
  shows "groupMapOk cur nxt
           (groupMapAdd m (ownerKey cur nxt p) (computeOwnerDevice p cur)
              (computeOwnerDevice p nxt) p)"
proof (cases "map_of m (ownerKey cur nxt p)")
  case None
  then show ?thesis
    using assms
    by (auto simp: groupMapAdd_def groupMapOk_def reassigned_def ownerKey_def)
next
  case (Some g)
  show ?thesis
    unfolding groupMapOk_def
  proof
    fix e
    assume "e \<in> set (groupMapAdd m (ownerKey cur nxt p) (computeOwnerDevice p cur)
              (computeOwnerDevice p nxt) p)"
    moreover have "set (groupMapAdd m (ownerKey cur nxt p) (computeOwnerDevice p cur)
              (computeOwnerDevice p nxt) p) =
        (\<lambda>e0. if fst e0 = ownerKey cur nxt p
               then (fst e0, fst (snd e0), fst (snd (snd e0)), setAdd (snd (snd (snd e0))) p)
               else e0) ` set m"
      using Some by (simp add: groupMapAdd_def)
    ultimately obtain e0 where e0: "e0 \<in> set m"
      and e: "e = (if fst e0 = ownerKey cur nxt p
                   then (fst e0, fst (snd e0), fst (snd (snd e0)), setAdd (snd (snd (snd e0))) p)
                   else e0)"
      by blast
    from assms(1) e0 have ok: "fst (snd e0) \<noteq> None" "fst (snd (snd e0)) \<noteq> None"
      "fst e0 = orElse (fst (snd e0)) emptySetSign @ rightArrow
                    @ orElse (fst (snd (snd e0))) emptySetSign"
      "distinct (snd (snd (snd e0)))"
      "\<forall>q \<in> set (snd (snd (snd e0))). ownerKey cur nxt q = fst e0"
      unfolding groupMapOk_def by blast+
    show "fst (snd e) \<noteq> None \<and> fst (snd (snd e)) \<noteq> None
        \<and> fst e = orElse (fst (snd e)) emptySetSign @ rightArrow
                    @ orElse (fst (snd (snd e))) emptySetSign
        \<and> distinct (snd (snd (snd e)))
        \<and> (\<forall>p \<in> set (snd (snd (snd e))). ownerKey cur nxt p = fst e)"
    proof (cases "fst e0 = ownerKey cur nxt p")
      case True
      with e have "e = (fst e0, fst (snd e0), fst (snd (snd e0)), setAdd (snd (snd (snd e0))) p)"
        by simp
      with ok True show ?thesis
        by (auto simp: set_setAdd distinct_setAdd)
    next
      case False
      with e have "e = e0" by simp
      with ok show ?thesis by simp
    qed
  qed
qed

lemma reassignment_step:
  assumes "groupMapOk cur nxt m"
  shows "groupMapOk cur nxt (reassignmentStep cur nxt m pt)"
    and "groupMapPoints (reassignmentStep cur nxt m pt) =
           groupMapPoints m \<union> (if reassigned cur nxt (path_pt pt) then {path_pt pt} else {})"
proof -
  show "groupMapOk cur nxt (reassignmentStep cur nxt m pt)"
  proof (cases "reassigned cur nxt (path_pt pt)")
    case True
    with assms show ?thesis
      by (simp only: reassignmentStep_eq if_True groupMapOk_add)
  next
    case False
    with assms show ?thesis
      by (simp only: reassignmentStep_eq if_False)
  qed
  show "groupMapPoints (reassignmentStep cur nxt m pt) =
           groupMapPoints m \<union> (if reassigned cur nxt (path_pt pt) then {path_pt pt} else {})"
  proof (cases "reassigned cur nxt (path_pt pt)")
    case True
    then show ?thesis
      unfolding groupMapPoints_def
      by (simp only: reassignmentStep_eq if_True groupMapAdd_points) simp
  next
    case False
    then show ?thesis
      by (simp only: reassignmentStep_eq if_False) simp
  qed
qed

lemma reassignment_fold:
  assumes "groupMapOk cur nxt m"
  shows "groupMapOk cur nxt (foldl (reassignmentStep cur nxt) m pts)
       \<and> groupMapPoints (foldl (reassignmentStep cur nxt) m pts) =
           groupMapPoints m \<union> path_pt ` set (filter (\<lambda>pt. reassigned cur nxt (path_pt pt)) pts)"
  using assms
proof (induction pts arbitrary: m)
  case Nil
  then show ?case by simp
next
  case (Cons pt pts)
  let ?X = "if reassigned cur nxt (path_pt pt) then {path_pt pt} else {}"
  let ?R = "path_pt ` set (filter (\<lambda>pt. reassigned cur nxt (path_pt pt)) pts)"
  note s = reassignment_step [OF Cons.prems, of pt]
  note ih = Cons.IH [OF s(1)]
  have "groupMapPoints (foldl (reassignmentStep cur nxt) (reassignmentStep cur nxt m pt) pts)
      = (groupMapPoints m \<union> ?X) \<union> ?R"
    using conjunct2 [OF ih] unfolding s(2) .
  moreover have "path_pt ` set (filter (\<lambda>pt. reassigned cur nxt (path_pt pt)) (pt # pts)) = ?X \<union> ?R"
    by simp
  ultimately have "groupMapPoints (foldl (reassignmentStep cur nxt) (reassignmentStep cur nxt m pt) pts)
      = groupMapPoints m \<union> path_pt ` set (filter (\<lambda>pt. reassigned cur nxt (path_pt pt)) (pt # pts))"
    by (simp only: Un_assoc)
  with conjunct1 [OF ih] show ?case
    by (simp only: foldl_Cons)
qed

text \<open>
  What holds of the reassignment computation for every input: the points of all groups
  together are the reassigned points; every group has two owners; the points of a group
  have the key string of the group's owners; and the paths of a group are sorted and
  listed once.
\<close>

lemma computeReassignmentGroups_reports:
  "(\<Union>g \<in> set (computeReassignmentGroups lc pts cur nxt). set (pointPaths g)) =
     {p \<in> path_pt ` set pts. reassigned cur nxt p}"
  and computeReassignmentGroups_groups:
  "g \<in> set (computeReassignmentGroups lc pts cur nxt) \<Longrightarrow>
     fromDevicePath g \<noteq> None \<and> toDevicePath g \<noteq> None \<and> distinct (pointPaths g)
     \<and> (\<forall>p \<in> set (pointPaths g).
           ownerKey cur nxt p = orElse (fromDevicePath g) emptySetSign @ rightArrow
                                  @ orElse (toDevicePath g) emptySetSign)
     \<and> (totalPreorder lc \<longrightarrow> sorted_wrt (\<lambda>a b. lc a b \<le> 0) (pointPaths g))"
proof -
  let ?m = "foldl (reassignmentStep cur nxt) [] pts"
  let ?mk = "\<lambda>e. \<lparr>fromDevicePath = fst (snd e), toDevicePath = fst (snd (snd e)),
                   pointPaths = sortWith lc (snd (snd (snd e)))\<rparr>"
  have ok0: "groupMapOk cur nxt []" by (simp add: groupMapOk_def)
  note f = reassignment_fold [OF ok0, of pts]
  have groups: "set (computeReassignmentGroups lc pts cur nxt) = ?mk ` set ?m"
    by (simp add: computeReassignmentGroups_def set_sortWith)
  have "(\<Union>g \<in> set (computeReassignmentGroups lc pts cur nxt). set (pointPaths g)) =
      groupMapPoints ?m"
    unfolding groups groupMapPoints_def by (simp add: set_sortWith)
  also have "\<dots> = path_pt ` set (filter (\<lambda>pt. reassigned cur nxt (path_pt pt)) pts)"
    using conjunct2 [OF f] by (simp add: groupMapPoints_def)
  also have "\<dots> = {p \<in> path_pt ` set pts. reassigned cur nxt p}"
    by auto
  finally show "(\<Union>g \<in> set (computeReassignmentGroups lc pts cur nxt). set (pointPaths g)) =
     {p \<in> path_pt ` set pts. reassigned cur nxt p}" .
  show "fromDevicePath g \<noteq> None \<and> toDevicePath g \<noteq> None \<and> distinct (pointPaths g)
     \<and> (\<forall>p \<in> set (pointPaths g).
           ownerKey cur nxt p = orElse (fromDevicePath g) emptySetSign @ rightArrow
                                  @ orElse (toDevicePath g) emptySetSign)
     \<and> (totalPreorder lc \<longrightarrow> sorted_wrt (\<lambda>a b. lc a b \<le> 0) (pointPaths g))"
    if "g \<in> set (computeReassignmentGroups lc pts cur nxt)"
  proof -
    from that groups obtain e where e: "e \<in> set ?m" "g = ?mk e" by auto
    from f e(1) have "fst (snd e) \<noteq> None" "fst (snd (snd e)) \<noteq> None"
      "fst e = orElse (fst (snd e)) emptySetSign @ rightArrow
                    @ orElse (fst (snd (snd e))) emptySetSign"
      "distinct (snd (snd (snd e)))"
      "\<forall>q \<in> set (snd (snd (snd e))). ownerKey cur nxt q = fst e"
      unfolding groupMapOk_def by blast+
    then show ?thesis
      unfolding e(2) by (simp add: set_sortWith distinct_sortWith sorted_sortWith)
  qed
qed

subsection \<open>Colliding keys\<close>

text \<open>
  C5. The groups are keyed by the string \<open>from\<rightarrow>to\<close>, and two different pairs of
  owners can give one key when folder names contain the arrow. With the devices
  \<open>root/x\<close> and \<open>root/x\<rightarrow>root/x/y\<close> and the selection \<open>root/x/y\<rightarrow>root/x\<rightarrow>root\<close>,
  \<open>root/x\<rightarrow>root\<close> (all four are keys of the folder tree of the two points
  \<open>x/y\<rightarrow>root/x\<rightarrow>root/pt\<close> and \<open>x\<rightarrow>root/x/y/pt\<close>), the second point moves from
  \<open>root/x\<rightarrow>root/x/y\<close> to \<open>root/x\<rightarrow>root\<close>, but the plan reports it in the one group
  of the first point, from \<open>root/x\<close> to \<open>root/x/y\<rightarrow>root/x\<rightarrow>root\<close>.
\<close>

theorem computeReassignmentGroups_key_collision:
  "deviceSetInvariant (devicePaths collidingState)
   \<and> computeOwnerDevice collidingPoint1 [collidingFrom1, collidingFrom2] = Some collidingFrom1
   \<and> computeOwnerDevice collidingPoint1 [collidingTo1, collidingTo2] = Some collidingTo1
   \<and> computeOwnerDevice collidingPoint2 [collidingFrom1, collidingFrom2] = Some collidingFrom2
   \<and> computeOwnerDevice collidingPoint2 [collidingTo1, collidingTo2] = Some collidingTo2
   \<and> collidingFrom1 \<noteq> collidingFrom2 \<and> collidingTo1 \<noteq> collidingTo2
   \<and> computeReassignmentGroups byteCompare (points collidingState)
         [collidingFrom1, collidingFrom2] [collidingTo1, collidingTo2]
       = [\<lparr>fromDevicePath = Some collidingFrom1, toDevicePath = Some collidingTo1,
            pointPaths = [collidingPoint1, collidingPoint2]\<rparr>]"
  by (intro conjI; code_simp)

text \<open>The conflict planner reaches this input: it stages the plan with that one group.\<close>

lemma colliding_plan_staged:
  "map_option reassignmentGroups
         (pendingConflict (markSelectionAsDevices byteCompare collidingState))
       = Some [\<lparr>fromDevicePath = Some collidingFrom1, toDevicePath = Some collidingTo1,
                  pointPaths = [collidingPoint1, collidingPoint2]\<rparr>]"
  by code_simp

section \<open>The hidden-folder normalizer\<close>

lemma isCovered_iff:
  "isCovered cands p \<longleftrightarrow> (\<exists>q \<in> set cands. q \<noteq> p \<and> qualifies p q)"
proof -
  have "isCovered cands p \<longleftrightarrow>
      (\<exists>q \<in> set cands. p \<noteq> q \<and> (getPathRelation q p = Ancestor \<or> getPathRelation q p = Same))"
    unfolding isCovered_def list_ex_iff by (rule refl)
  also have "\<dots> \<longleftrightarrow> (\<exists>q \<in> set cands. q \<noteq> p \<and> qualifies p q)"
    by (simp only: qualifies_def neq_commute [of p])
  finally show ?thesis .
qed

lemma isCovered_cong: "set xs = set ys \<Longrightarrow> isCovered xs p = isCovered ys p"
  by (simp only: isCovered_iff)

lemma set_hiddenCandidates:
  "set (hiddenCandidates tree incoming) =
     {p. p \<in> trim ` set incoming \<and> p \<noteq> [] \<and> p \<noteq> ''root''
         \<and> (tree \<noteq> [] \<longrightarrow> p \<in> set tree)}"
proof -
  have "set (newSet (filterBoolean (map trim incoming))) = {p. p \<in> trim ` set incoming \<and> p \<noteq> []}"
    unfolding set_newSet filterBoolean_def by auto
  then show ?thesis
    unfolding hiddenCandidates_def set_filter by (cases "tree = []") auto
qed

lemma distinct_hiddenCandidates: "distinct (hiddenCandidates tree incoming)"
  by (simp add: hiddenCandidates_def distinct_newSet)

lemma normalizeHiddenFolderPaths_eq:
  "normalizeHiddenFolderPaths lc tree incoming =
     sortWith lc (filter (\<lambda>p. \<not> isCovered (hiddenCandidates tree incoming) p)
                    (sortWith lc (hiddenCandidates tree incoming)))"
proof -
  have "filter (\<lambda>p. \<not> isCovered (sortWith lc (hiddenCandidates tree incoming)) p)
          (sortWith lc (hiddenCandidates tree incoming))
      = filter (\<lambda>p. \<not> isCovered (hiddenCandidates tree incoming) p)
          (sortWith lc (hiddenCandidates tree incoming))"
    by (rule filter_cong) (simp_all add: isCovered_cong [OF set_sortWith])
  then show ?thesis
    by (simp add: normalizeHiddenFolderPaths_def hiddenCandidates_def Let_def)
qed

lemma set_normalizeHiddenFolderPaths:
  "set (normalizeHiddenFolderPaths lc tree incoming) =
     {p \<in> set (hiddenCandidates tree incoming). \<not> isCovered (hiddenCandidates tree incoming) p}"
  by (auto simp: normalizeHiddenFolderPaths_eq set_sortWith)

lemma distinct_normalizeHiddenFolderPaths:
  "distinct (normalizeHiddenFolderPaths lc tree incoming)"
  by (simp add: normalizeHiddenFolderPaths_eq distinct_sortWith distinct_hiddenCandidates)

lemma sorted_normalizeHiddenFolderPaths:
  "totalPreorder lc \<Longrightarrow>
     sorted_wrt (\<lambda>a b. lc a b \<le> 0) (normalizeHiddenFolderPaths lc tree incoming)"
  by (simp add: normalizeHiddenFolderPaths_eq sorted_sortWith)

lemma hiddenCandidates_fixed:
  assumes "distinct out" and "set out \<subseteq> set (hiddenCandidates tree incoming)"
  shows "hiddenCandidates tree out = out"
proof -
  have t: "map trim out = out"
  proof (rule map_idI)
    fix p assume "p \<in> set out"
    with assms(2) have "p \<in> trim ` set incoming" by (auto simp: set_hiddenCandidates)
    then show "trim p = p" by (auto simp: trim_idem)
  qed
  have ne: "\<forall>p \<in> set out. p \<noteq> [] \<and> p \<noteq> ''root'' \<and> (tree \<noteq> [] \<longrightarrow> p \<in> set tree)"
    using assms(2) by (auto simp: set_hiddenCandidates)
  then have "filterBoolean out = out"
    by (simp add: filterBoolean_def)
  moreover have "newSet out = out" using assms(1) by (rule newSet_distinct)
  moreover have "filter (\<lambda>p. p \<noteq> ''root'') out = out" using ne by simp
  moreover have "filter (\<lambda>p. if tree \<noteq> [] then p \<in> set tree else True) out = out"
    using ne by simp
  ultimately show ?thesis
    by (simp add: hiddenCandidates_def t)
qed

lemma normalizeHiddenFolderPaths_idem:
  assumes "totalPreorder lc"
  shows "normalizeHiddenFolderPaths lc tree (normalizeHiddenFolderPaths lc tree incoming)
       = normalizeHiddenFolderPaths lc tree incoming"
proof -
  define out where "out = normalizeHiddenFolderPaths lc tree incoming"
  have d: "distinct out" unfolding out_def by (rule distinct_normalizeHiddenFolderPaths)
  have s: "sorted_wrt (\<lambda>a b. lc a b \<le> 0) out"
    unfolding out_def using assms by (rule sorted_normalizeHiddenFolderPaths)
  have sub: "set out \<subseteq> set (hiddenCandidates tree incoming)"
    unfolding out_def by (auto simp: set_normalizeHiddenFolderPaths)
  have c: "hiddenCandidates tree out = out"
    using d sub by (rule hiddenCandidates_fixed)
  have nc: "\<forall>p \<in> set out. \<not> isCovered out p"
  proof
    fix p assume p: "p \<in> set out"
    then have "\<not> isCovered (hiddenCandidates tree incoming) p"
      unfolding out_def by (simp add: set_normalizeHiddenFolderPaths)
    with sub show "\<not> isCovered out p"
      unfolding isCovered_iff by blast
  qed
  have "normalizeHiddenFolderPaths lc tree out
      = sortWith lc (filter (\<lambda>p. \<not> isCovered out p) (sortWith lc out))"
    by (simp add: normalizeHiddenFolderPaths_eq c)
  also have "\<dots> = sortWith lc (filter (\<lambda>p. \<not> isCovered out p) out)"
    using s by (simp add: sortWith_sorted)
  also have "filter (\<lambda>p. \<not> isCovered out p) out = out"
    using nc by simp
  also have "sortWith lc out = out"
    using s by (simp add: sortWith_sorted)
  finally show ?thesis by (simp add: out_def)
qed

lemma Descendant_iff_Ancestor: "getPathRelation q p = Descendant \<longleftrightarrow> getPathRelation p q = Ancestor"
  by (simp add: getPathRelation_Descendant getPathRelation_Ancestor)

lemma normalize_no_tree_example:
  "normalizeHiddenFolderPaths byteCompare [] [''root/A''] = [''root/A'']"
  by code_simp

text \<open>
  C8, as stated, fails on the tree clause: with no folder tree loaded (the set of tree
  paths is empty) a candidate is kept although it is not a path of the tree.
\<close>

theorem normalizeHiddenFolderPaths_no_tree_counterexample:
  "normalizeHiddenFolderPaths byteCompare [] [''root/A''] = [''root/A'']
   \<and> ''root/A'' \<notin> set ([] :: string list)"
  by (simp add: normalize_no_tree_example)

text \<open>
  C8, amended. For every list of candidate hidden paths, \<open>normalizeHiddenFolderPaths\<close>
  trims and deduplicates the input, discards the empty path and the root path, discards
  every path that is not in the current folder tree when that tree is not empty (with no
  tree loaded no path is discarded on that ground), removes every candidate covered by
  another candidate (one that is the same folder or an ancestor), and returns the rest
  sorted ascending. So applying it twice equals applying it once, and no two different
  paths of the output are in the relation same, ancestor or descendant. The order
  \<open>localeCompare\<close> is taken to be a total preorder.
\<close>

theorem normalizeHiddenFolderPaths_minimal:
  assumes "totalPreorder lc"
  shows "set (hiddenCandidates tree incoming) =
           {p. p \<in> trim ` set incoming \<and> p \<noteq> [] \<and> p \<noteq> ''root''
               \<and> (tree \<noteq> [] \<longrightarrow> p \<in> set tree)}
     \<and> set (normalizeHiddenFolderPaths lc tree incoming) =
           {p \<in> set (hiddenCandidates tree incoming).
              \<not> (\<exists>q \<in> set (hiddenCandidates tree incoming).
                    q \<noteq> p \<and> (getPathRelation q p = Ancestor \<or> getPathRelation q p = Same))}
     \<and> distinct (normalizeHiddenFolderPaths lc tree incoming)
     \<and> sorted_wrt (\<lambda>a b. lc a b \<le> 0) (normalizeHiddenFolderPaths lc tree incoming)
     \<and> normalizeHiddenFolderPaths lc tree (normalizeHiddenFolderPaths lc tree incoming)
         = normalizeHiddenFolderPaths lc tree incoming
     \<and> (\<forall>p \<in> set (normalizeHiddenFolderPaths lc tree incoming).
          \<forall>q \<in> set (normalizeHiddenFolderPaths lc tree incoming).
            p \<noteq> q \<longrightarrow> getPathRelation q p \<noteq> Ancestor \<and> getPathRelation q p \<noteq> Same
                      \<and> getPathRelation q p \<noteq> Descendant)"
proof (intro conjI ballI impI)
  let ?out = "normalizeHiddenFolderPaths lc tree incoming"
  let ?cands = "hiddenCandidates tree incoming"
  show "set ?cands = {p. p \<in> trim ` set incoming \<and> p \<noteq> [] \<and> p \<noteq> ''root''
               \<and> (tree \<noteq> [] \<longrightarrow> p \<in> set tree)}"
    by (rule set_hiddenCandidates)
  show "set ?out = {p \<in> set ?cands.
              \<not> (\<exists>q \<in> set ?cands.
                    q \<noteq> p \<and> (getPathRelation q p = Ancestor \<or> getPathRelation q p = Same))}"
    unfolding set_normalizeHiddenFolderPaths isCovered_iff qualifies_def by (rule refl)
  show "distinct ?out" by (rule distinct_normalizeHiddenFolderPaths)
  show "sorted_wrt (\<lambda>a b. lc a b \<le> 0) ?out"
    using assms by (rule sorted_normalizeHiddenFolderPaths)
  show "normalizeHiddenFolderPaths lc tree ?out = ?out"
    using assms by (rule normalizeHiddenFolderPaths_idem)
  have uncovered: "\<not> qualifies p q"
    if "p \<in> set ?out" "q \<in> set ?out" "p \<noteq> q" for p q
  proof -
    from that(1) have "\<not> isCovered ?cands p"
      by (simp add: set_normalizeHiddenFolderPaths)
    moreover from that(2) have "q \<in> set ?cands"
      by (simp add: set_normalizeHiddenFolderPaths)
    ultimately show ?thesis
      using that(3) unfolding isCovered_iff by metis
  qed
  fix p q
  assume pq: "p \<in> set ?out" "q \<in> set ?out" "p \<noteq> q"
  from uncovered [OF pq] show "getPathRelation q p \<noteq> Ancestor" "getPathRelation q p \<noteq> Same"
    by (simp_all add: qualifies_def)
  from uncovered [OF pq(2) pq(1)] pq(3) have "getPathRelation p q \<noteq> Ancestor"
    by (simp add: qualifies_def)
  then show "getPathRelation q p \<noteq> Descendant"
    by (simp add: Descendant_iff_Ancestor)
qed

lemma normalize_tree_example:
  "normalizeHiddenFolderPaths byteCompare [''root'', ''root/A'', ''root/A/B'', ''root/C'']
     [''root/C'', ''root/A'', '' root/A/B'', ''root'', ''root/Z'']
   = [''root/A'', ''root/C'']"
  by code_simp

theorem normalizeHiddenFolderPaths_minimal_witness:
  "totalPreorder byteCompare
   \<and> normalizeHiddenFolderPaths byteCompare [''root'', ''root/A'', ''root/A/B'', ''root/C'']
       [''root/C'', ''root/A'', '' root/A/B'', ''root'', ''root/Z'']
     = [''root/A'', ''root/C'']
   \<and> normalizeHiddenFolderPaths byteCompare [''root'', ''root/A'', ''root/A/B'', ''root/C'']
       [''root/A'', ''root/C'']
     = [''root/A'', ''root/C'']
   \<and> sorted_wrt (\<lambda>a b. byteCompare a b \<le> 0) [''root/A'', ''root/C'']"
  using normalizeHiddenFolderPaths_minimal [OF totalPreorder_byteCompare,
          of "[''root'', ''root/A'', ''root/A/B'', ''root/C'']"
             "[''root/C'', ''root/A'', '' root/A/B'', ''root'', ''root/Z'']",
          unfolded normalize_tree_example]
        totalPreorder_byteCompare normalize_tree_example
  by blast

section \<open>The export projector\<close>

lemma prefix_iff_no_mismatch:
  "prefix ys xs \<longleftrightarrow> length ys \<le> length xs \<and> (\<forall>j < length ys. xs ! j = ys ! j)"
proof
  assume "prefix ys xs"
  then show "length ys \<le> length xs \<and> (\<forall>j < length ys. xs ! j = ys ! j)"
    by (auto simp: prefix_def nth_append)
next
  assume a: "length ys \<le> length xs \<and> (\<forall>j < length ys. xs ! j = ys ! j)"
  then have "min (length xs) (length ys) = length ys" by simp
  with a have "\<forall>j < min (length xs) (length ys). xs ! j = ys ! j" by simp
  then have "prefix xs ys \<or> prefix ys xs" by (simp only: no_mismatch_iff_prefix)
  then show "prefix ys xs"
  proof
    assume "prefix xs ys"
    then have "length xs \<le> length ys" by (rule prefix_length_le)
    with a have "length xs = length ys" by simp
    with \<open>prefix xs ys\<close> have "xs = ys" by (auto simp: prefix_def)
    then show ?thesis by simp
  qed
qed

lemma matches_iff_prefix:
  "\<not> length pathSegs < length ancSegs \<and> \<not> segmentsDiffer pathSegs ancSegs (length ancSegs) 0
     \<longleftrightarrow> prefix ancSegs pathSegs"
proof (cases "length pathSegs < length ancSegs")
  case True
  then show ?thesis
    using prefix_length_le [of ancSegs pathSegs] by auto
next
  case False
  then have "length ancSegs \<le> length pathSegs" by simp
  then have "\<not> segmentsDiffer pathSegs ancSegs (length ancSegs) 0
      \<longleftrightarrow> (\<forall>j < length ancSegs. pathSegs ! j = ancSegs ! j)"
    by (simp add: segmentsDiffer_iff)
  with False show ?thesis
    unfolding prefix_iff_no_mismatch [of ancSegs pathSegs] by (simp add: not_less)
qed

lemma isAtOrDownstreamOfAnyFolderPath_iff:
  "isAtOrDownstreamOfAnyFolderPath p hs \<longleftrightarrow> (\<exists>h \<in> set hs. qualifies p h)"
proof (cases "toComparableSegments p = []")
  case True
  then have "\<not> qualifies p h" for h
    by (simp add: qualifies_iff)
  with True show ?thesis
    by (simp add: isAtOrDownstreamOfAnyFolderPath_def)
next
  case False
  have "isAtOrDownstreamOfAnyFolderPath p hs \<longleftrightarrow>
      (\<exists>h \<in> set hs. toComparableSegments h \<noteq> []
          \<and> (\<not> length (toComparableSegments p) < length (toComparableSegments h)
               \<and> \<not> segmentsDiffer (toComparableSegments p) (toComparableSegments h)
                     (length (toComparableSegments h)) 0))"
    using False by (simp add: isAtOrDownstreamOfAnyFolderPath_def Let_def list_ex_iff)
  then show ?thesis
    unfolding matches_iff_prefix qualifies_iff .
qed

lemma foldl_map_upd:
  "foldl (\<lambda>m p. m(p \<mapsto> n)) m ps q = (if q \<in> set ps then Some n else m q)"
  by (induction ps arbitrary: m) auto

lemma mergedNameByPath_fold:
  "foldl (\<lambda>m md. let name = trim (name_md md)
                    in if name = [] then m
                       else foldl (\<lambda>m p. m(p \<mapsto> name)) m (memberPaths md)) m mds p
     = (if namingGroups mds p = [] then m p
        else Some (trim (name_md (last (namingGroups mds p)))))"
proof (induction mds arbitrary: m)
  case Nil
  then show ?case by (simp add: namingGroups_def)
next
  case (Cons md mds)
  show ?case
    by (simp add: Cons.IH) (simp add: namingGroups_def Let_def foldl_map_upd)
qed

lemma mergedNameByPath_eq:
  "mergedNameByPath mds p =
     (if namingGroups mds p = [] then None
      else Some (trim (name_md (last (namingGroups mds p)))))"
  unfolding mergedNameByPath_def mergedNameByPath_fold by simp

lemma trimmedIfPresent_Some: "trimmedIfPresent (Some v) = (if trim v = [] then None else Some (trim v))"
  by (auto simp: trimmedIfPresent_def trim_Nil)

lemma namingGroups_last_name:
  assumes "namingGroups mds p \<noteq> []"
  shows "trim (name_md (last (namingGroups mds p))) \<noteq> []"
proof -
  from assms have "last (namingGroups mds p) \<in> set (namingGroups mds p)" by simp
  then show ?thesis by (simp add: namingGroups_def)
qed

lemma getProperty_own: "obj key = Some v \<Longrightarrow> getProperty obj key = StringValue v"
  by (simp add: getProperty_def)

lemma getProperty_undefined:
  "obj key = None \<Longrightarrow> key \<notin> set objectPrototypeKeys \<Longrightarrow> getProperty obj key = Undefined"
  by (simp add: getProperty_def)

lemma getProperty_inherited:
  "obj key = None \<Longrightarrow> key \<in> set objectPrototypeKeys \<Longrightarrow> getProperty obj key = Inherited"
  by (simp add: getProperty_def)

lemma no_merged_name:
  "namingGroups (mergedDevices st) p = [] \<Longrightarrow>
     trimmedIfPresent (mergedNameByPath (mergedDevices st) p) = None"
  by (simp add: mergedNameByPath_eq trimmedIfPresent_def)

lemma displayDeviceName_merged:
  "namingGroups (mergedDevices st) p \<noteq> [] \<Longrightarrow>
     displayDeviceName st p = Inr (trim (name_md (last (namingGroups (mergedDevices st) p))))"
  by (simp add: displayDeviceName_def mergedNameByPath_eq trimmedIfPresent_Some trim_idem
      namingGroups_last_name)

lemma displayDeviceName_override:
  assumes "namingGroups (mergedDevices st) p = []" and "deviceNameByPath st p = Some v"
    and "trim v \<noteq> []"
  shows "displayDeviceName st p = Inr (trim v)"
proof -
  from assms(3) have "v \<noteq> []" by (auto simp: trim_Nil)
  with assms show ?thesis
    by (simp add: displayDeviceName_def no_merged_name getProperty_own trimmedProperty_def)
qed

lemma last_segment:
  "(case split CHR ''/'' s of [] \<Rightarrow> s | segs \<Rightarrow> last segs) = last (split CHR ''/'' s)"
  using split_nonempty [of "CHR ''/''" s] by (cases "split CHR ''/'' s") simp_all

lemma displayDeviceName_leaf:
  assumes "namingGroups (mergedDevices st) p = []"
    and "(deviceNameByPath st p = None \<and> p \<notin> set objectPrototypeKeys)
         \<or> (\<exists>w. deviceNameByPath st p = Some w \<and> trim w = [])"
  shows "displayDeviceName st p
           = Inr (decodeStandardName (last (split CHR ''/'' (displayDevicePath p))))"
proof -
  from assms(2) have "trimmedProperty (getProperty (deviceNameByPath st) p) = Inr None"
    by (auto simp: getProperty_def trimmedProperty_def)
  with assms(1) show ?thesis
    by (simp add: displayDeviceName_def no_merged_name Let_def last_segment)
qed

lemma displayDeviceName_error:
  assumes "namingGroups (mergedDevices st) p = []" and "deviceNameByPath st p = None"
    and "p \<in> set objectPrototypeKeys"
  shows "displayDeviceName st p = Inl TypeError"
  using assms
  by (simp add: displayDeviceName_def no_merged_name getProperty_inherited trimmedProperty_def)

lemma treeKey_not_prototype:
  assumes "isTreeKey p"
  shows "p \<notin> set objectPrototypeKeys"
proof -
  from assms obtain segs where "p = treeKey segs"
    unfolding isTreeKey_iff by blast
  then have "hd p = CHR ''r''" by (simp add: treeKey_def)
  then show ?thesis
    by (auto simp: objectPrototypeKeys_def)
qed

lemma last_split_snoc:
  "sep \<notin> set seg \<Longrightarrow> last (split sep (a @ sep # seg)) = seg"
  by (simp add: split_append_sep split_no_sep)

lemma leaf_treeKey:
  assumes "CHR ''/'' \<notin> set seg"
  shows "last (split CHR ''/'' (displayDevicePath (treeKey (segs @ [seg])))) = seg"
proof -
  define c where "c = concat (map ((#) CHR ''/'') segs)"
  have k: "treeKey (segs @ [seg]) = ''root/'' @ tl (c @ CHR ''/'' # seg)"
  proof (cases c)
    case Nil
    then show ?thesis by (simp add: treeKey_def c_def [symmetric])
  next
    case (Cons x xs)
    then have "x = CHR ''/''"
      unfolding c_def by (cases segs) auto
    with Cons show ?thesis by (simp add: treeKey_def c_def [symmetric])
  qed
  have "displayDevicePath (treeKey (segs @ [seg])) = tl (c @ CHR ''/'' # seg)"
    unfolding k displayDevicePath_def by simp
  also have "\<dots> = tl c @ CHR ''/'' # seg \<or> \<dots> = seg"
    by (cases c) simp_all
  finally show ?thesis
    using assms by (auto simp: last_split_snoc split_no_sep)
qed

lemma toComparableSegments_Nil: "toComparableSegments [] = []"
  by code_simp

lemma owner_not_empty: "computeOwnerDevice p ds = Some ow \<Longrightarrow> ow \<noteq> []"
proof
  assume "computeOwnerDevice p ds = Some ow" "ow = []"
  then have "qualifies p []"
    using computeOwnerDevice_Some by blast
  then show False by (simp add: qualifies_iff toComparableSegments_Nil)
qed

lemma exportDeviceName_inherited:
  "rec col = None \<Longrightarrow> col \<in> set objectPrototypeKeys \<Longrightarrow>
     exportDeviceName st col rec = Inl TypeError"
  by (simp add: exportDeviceName_def getProperty_inherited cellText_def)

lemma exportDeviceName_eq:
  assumes "cellText (getProperty rec col) = Inr pp"
  shows "exportDeviceName st col rec =
     (if \<exists>h \<in> set (hiddenFolderPaths st). qualifies pp h then Inr ''-''
      else case computeOwnerDevice pp (devicePaths st) of
             None \<Rightarrow> Inr []
           | Some ow \<Rightarrow> displayDeviceName st ow)"
proof -
  define hid where "hid = (\<exists>h \<in> set (hiddenFolderPaths st). qualifies pp h)"
  have h: "(if pp \<noteq> [] \<and> hiddenFolderPaths st \<noteq> []
            then isAtOrDownstreamOfAnyFolderPath pp (hiddenFolderPaths st) else False) = hid"
  proof (cases "pp = []")
    case True
    then have "\<not> qualifies pp h" for h
      by (simp add: qualifies_iff toComparableSegments_Nil)
    with True show ?thesis by (simp add: hid_def)
  next
    case False
    then show ?thesis
      by (cases "hiddenFolderPaths st = []")
         (simp_all add: hid_def isAtOrDownstreamOfAnyFolderPath_iff)
  qed
  have o: "(if \<not> hid \<and> pp \<noteq> [] then computeOwnerDevice pp (devicePaths st) else None)
         = (if hid then None else computeOwnerDevice pp (devicePaths st))"
  proof (cases "pp = []")
    case True
    then have "\<not> qualifies pp d" for d
      by (simp add: qualifies_iff toComparableSegments_Nil)
    then have "computeOwnerDevice pp (devicePaths st) = None"
      by (simp add: computeOwnerDevice_None)
    with True show ?thesis by simp
  next
    case False
    then show ?thesis by simp
  qed
  have "exportDeviceName st col rec =
      (if hid then Inr ''-''
       else case (if hid then None else computeOwnerDevice pp (devicePaths st)) of
              None \<Rightarrow> Inr []
            | Some ownerPath \<Rightarrow> if ownerPath \<noteq> [] then displayDeviceName st ownerPath else Inr [])"
    unfolding exportDeviceName_def assms sum.case Let_def h o by (rule refl)
  also have "\<dots> =
      (if hid then Inr ''-''
       else case computeOwnerDevice pp (devicePaths st) of
              None \<Rightarrow> Inr []
            | Some ow \<Rightarrow> displayDeviceName st ow)"
    by (auto split: option.splits dest: owner_not_empty)
  finally show ?thesis
    by (simp only: hid_def)
qed

lemma cellText_row:
  assumes "rec col = Some v \<or> (rec col = None \<and> col \<notin> set objectPrototypeKeys \<and> v = [])"
  shows "cellText (getProperty rec col) = Inr (trim v)"
  using assms by (auto simp: getProperty_def cellText_def)

subsection \<open>The decoder\<close>

lemma digitValue_Some:
  "digitValue h = Some i \<Longrightarrow> isHexDigit h \<and> hexValue h = i"
  by (auto simp: digitValue_def upt_rec isHexDigit_def hexValue_def less_eq_char_def split: if_splits)

lemma hex_digit_chars:
  "map char_of [48, 49, 50, 51, 52, 53, 54, 55, 56, 57, 97, 98, 99, 100, 101, 102,
                65, 66, 67, 68, 69, 70 :: nat] = ''0123456789abcdefABCDEF''"
  by code_simp

lemma isHexDigit_digitValue:
  assumes "isHexDigit h"
  shows "digitValue h \<noteq> None"
proof -
  define n where "n = (of_char h :: nat)"
  have h: "h = char_of n" by (simp add: n_def)
  from assms have "(48 \<le> n \<and> n \<le> 57) \<or> (97 \<le> n \<and> n \<le> 102) \<or> (65 \<le> n \<and> n \<le> 70)"
    by (simp add: isHexDigit_def less_eq_char_def n_def)
  then have "n = 48 \<or> n = 49 \<or> n = 50 \<or> n = 51 \<or> n = 52 \<or> n = 53 \<or> n = 54 \<or> n = 55
      \<or> n = 56 \<or> n = 57 \<or> n = 97 \<or> n = 98 \<or> n = 99 \<or> n = 100 \<or> n = 101 \<or> n = 102
      \<or> n = 65 \<or> n = 66 \<or> n = 67 \<or> n = 68 \<or> n = 69 \<or> n = 70"
    by arith
  then have "n \<in> set [48, 49, 50, 51, 52, 53, 54, 55, 56, 57, 97, 98, 99, 100, 101, 102,
                65, 66, 67, 68, 69, 70]"
    by simp
  then have "char_of n \<in> set (map char_of [48, 49, 50, 51, 52, 53, 54, 55, 56, 57, 97, 98, 99,
                100, 101, 102, 65, 66, 67, 68, 69, 70 :: nat])"
    unfolding set_map by (rule imageI)
  then have "h \<in> set ''0123456789abcdefABCDEF''"
    unfolding hex_digit_chars h .
  then show ?thesis
    by (auto simp: digitValue_def upt_rec)
qed

lemma hex_digit:
  "(isHexDigit h \<longleftrightarrow> digitValue h \<noteq> None)
   \<and> (isHexDigit h \<longrightarrow> digitValue h = Some (hexValue h))"
proof (cases "digitValue h")
  case None
  with isHexDigit_digitValue [of h] show ?thesis by auto
next
  case (Some i)
  with digitValue_Some [of h i] show ?thesis by simp
qed

lemma decodeStandardName_escape:
  assumes "digitValue h1 = Some i" and "digitValue h2 = Some j"
  shows "decodeStandardName (CHR ''$'' # h1 # h2 # s) = fromCharCode (16 * i + j) @ decodeStandardName s"
proof -
  from assms hex_digit [of h1] hex_digit [of h2]
  have "isHexDigit h1" "isHexDigit h2" "hexValue h1 = i" "hexValue h2 = j"
    by auto
  then show ?thesis by simp
qed

lemma decodeStandardName_no_escape:
  assumes "digitValue h1 = None \<or> digitValue h2 = None"
  shows "decodeStandardName (CHR ''$'' # h1 # h2 # s) = CHR ''$'' # decodeStandardName (h1 # h2 # s)"
proof -
  from assms hex_digit [of h1] hex_digit [of h2]
  have "\<not> (isHexDigit h1 \<and> isHexDigit h2)"
    by auto
  then show ?thesis by auto
qed

lemma decodeStandardName_plain:
  "c \<noteq> CHR ''$'' \<Longrightarrow> decodeStandardName (c # s) = c # decodeStandardName s"
  by (cases s rule: decodeStandardName.cases) auto

lemma decodeStandardName_short: "length s < 3 \<Longrightarrow> decodeStandardName s = s"
  by (cases s rule: decodeStandardName.cases) auto

lemma decodeStandardName_no_dollar: "CHR ''$'' \<notin> set s \<Longrightarrow> decodeStandardName s = s"
proof (induction s)
  case Nil
  then show ?case by simp
next
  case (Cons c s)
  then have "c \<noteq> CHR ''$''" by auto
  then have "decodeStandardName (c # s) = c # decodeStandardName s"
    by (rule decodeStandardName_plain)
  with Cons show ?case by simp
qed

lemma fromCharCode_ascii: "n < 128 \<Longrightarrow> fromCharCode n = [char_of n]"
  by (simp add: fromCharCode_def)

subsection \<open>The rows of the export\<close>

lemma mapRows_ok:
  assumes "\<forall>r \<in> set rows. \<exists>y. f r = Inr y"
  shows "mapRows f rows = Inr (map (\<lambda>r. case f r of Inl e \<Rightarrow> undefined | Inr y \<Rightarrow> y) rows)"
  using assms by (induction rows) auto

lemma mapRows_error:
  assumes "\<exists>r \<in> set rows. f r = Inl TypeError"
  shows "mapRows f rows = Inl TypeError"
  using assms
proof (induction rows)
  case Nil
  then show ?case by simp
next
  case (Cons r rows)
  show ?case
  proof (cases "f r")
    case (Inl e)
    then show ?thesis by (cases e) simp
  next
    case (Inr y)
    with Cons.prems have "\<exists>r \<in> set rows. f r = Inl TypeError" by auto
    from Cons.IH [OF this] Inr show ?thesis by simp
  qed
qed

lemma exportDeviceName_defined:
  assumes "\<forall>d \<in> set (devicePaths st). isTreeKey d"
    and "rec col \<noteq> None \<or> col \<notin> set objectPrototypeKeys"
  shows "\<exists>n. exportDeviceName st col rec = Inr n"
proof -
  from assms(2) obtain v where
    "rec col = Some v \<or> (rec col = None \<and> col \<notin> set objectPrototypeKeys \<and> v = [])"
    by (cases "rec col") auto
  then have c: "cellText (getProperty rec col) = Inr (trim v)"
    by (rule cellText_row)
  have "\<exists>n. displayDeviceName st ow = Inr n"
    if "computeOwnerDevice (trim v) (devicePaths st) = Some ow" for ow
  proof -
    from computeOwnerDevice_Some [OF that] have "ow \<in> set (devicePaths st)" by auto
    with assms(1) have np: "ow \<notin> set objectPrototypeKeys"
      by (simp add: treeKey_not_prototype)
    show ?thesis
    proof (cases "namingGroups (mergedDevices st) ow = []")
      case False
      then show ?thesis by (simp add: displayDeviceName_merged)
    next
      case True
      show ?thesis
      proof (cases "deviceNameByPath st ow")
        case None
        with True np show ?thesis by (simp add: displayDeviceName_leaf)
      next
        case (Some w)
        with True show ?thesis
          by (cases "trim w = []") (simp_all add: displayDeviceName_leaf displayDeviceName_override)
      qed
    qed
  qed
  then show ?thesis
    unfolding exportDeviceName_eq [OF c] by (auto split: option.splits)
qed

lemma exportCsvWithDeviceNames_rows:
  assumes "csv \<noteq> []" and "col \<noteq> []"
    and "\<forall>r \<in> set rows. \<exists>n. exportDeviceName st col r = Inr n"
  shows "exportCsvWithDeviceNames st (Some csv) col rows
           = Inr (Some (map (\<lambda>r. r(''device_name'' \<mapsto> exportedName st col r)) rows))"
proof -
  let ?f = "\<lambda>rec. case exportDeviceName st col rec of
                      Inl e \<Rightarrow> Inl e
                    | Inr device_name \<Rightarrow> Inr (rec(''device_name'' \<mapsto> device_name))"
  have ok: "\<forall>r \<in> set rows. \<exists>y. ?f r = Inr y"
    using assms(3) by auto
  have "map (\<lambda>r. case ?f r of Inl e \<Rightarrow> undefined | Inr y \<Rightarrow> y) rows
      = map (\<lambda>r. r(''device_name'' \<mapsto> exportedName st col r)) rows"
    using assms(3) by (intro map_cong) (auto simp: exportedName_def)
  then show ?thesis
    using assms(1,2) by (simp add: exportCsvWithDeviceNames_def mapRows_ok [OF ok])
qed

lemma exportCsvWithDeviceNames_error:
  assumes "csv \<noteq> []" and "col \<noteq> []"
    and "\<exists>r \<in> set rows. exportDeviceName st col r = Inl TypeError"
  shows "exportCsvWithDeviceNames st (Some csv) col rows = Inl TypeError"
proof -
  let ?f = "\<lambda>rec. case exportDeviceName st col rec of
                      Inl e \<Rightarrow> Inl e
                    | Inr device_name \<Rightarrow> Inr (rec(''device_name'' \<mapsto> device_name))"
  from assms(3) obtain r where r: "r \<in> set rows" "exportDeviceName st col r = Inl TypeError"
    by blast
  then have "?f r = Inl TypeError" by simp
  with r(1) have "\<exists>r \<in> set rows. ?f r = Inl TypeError" by blast
  from mapRows_error [of rows ?f, OF this] assms(1,2) show ?thesis
    by (simp add: exportCsvWithDeviceNames_def)
qed

text \<open>
  C7. For every source row, with the trimmed value of the path column as the point path
  (the empty string when the row has no such column): when some hidden folder path is an
  ancestor of the point path or the same path, the exported \<open>device_name\<close> is \<open>-\<close>,
  whatever the devices are; otherwise it is the empty string when no device owns the point
  path, and the display name of the owner when one does. The display name of a device is
  the trimmed name of the (last) merged group with a non-blank name that has the device as
  member; without such a group, the trimmed name override when there is a non-blank one;
  otherwise the decoded last segment of the path, which for a key of the folder tree is
  its last folder segment. Decoding replaces, from the left, every dollar sign followed by
  two hexadecimal digits by the character with that code and keeps every other character.
  A lookup that finds a property of \<open>Object.prototype\<close> instead of a string fails with a
  \<open>TypeError\<close>: for a path column named like such a property that the row lacks, and for
  a device path equal to such a name without override and merged name; a key of the folder
  tree is never such a name. Without CSV text or path column nothing is exported. When the
  devices are keys of the folder tree and no row lacks a path column named like a
  property of \<open>Object.prototype\<close>, the export updates every parsed row with its
  \<open>device_name\<close>, in order, and leaves the other columns; a failing row fails the
  export.
\<close>

theorem export_device_name:
  "(rec col = None \<and> col \<in> set objectPrototypeKeys \<longrightarrow>
      exportDeviceName st col rec = Inl TypeError)
   \<and> (rec col = Some v \<or> (rec col = None \<and> col \<notin> set objectPrototypeKeys \<and> v = []) \<longrightarrow>
        (let pointPath = trim v;
             hidden = (\<exists>h \<in> set (hiddenFolderPaths st).
                         getPathRelation h pointPath = Ancestor \<or> getPathRelation h pointPath = Same)
         in (hidden \<longrightarrow> exportDeviceName st col rec = Inr ''-'')
          \<and> (\<not> hidden \<and> computeOwnerDevice pointPath (devicePaths st) = None
               \<longrightarrow> exportDeviceName st col rec = Inr [])
          \<and> (\<forall>ow. \<not> hidden \<and> computeOwnerDevice pointPath (devicePaths st) = Some ow
               \<longrightarrow> exportDeviceName st col rec = displayDeviceName st ow)))
   \<and> (namingGroups (mergedDevices st) p \<noteq> [] \<longrightarrow>
        displayDeviceName st p = Inr (trim (name_md (last (namingGroups (mergedDevices st) p)))))
   \<and> (namingGroups (mergedDevices st) p = [] \<and> deviceNameByPath st p = Some w \<and> trim w \<noteq> []
        \<longrightarrow> displayDeviceName st p = Inr (trim w))
   \<and> (namingGroups (mergedDevices st) p = []
        \<and> ((deviceNameByPath st p = None \<and> p \<notin> set objectPrototypeKeys)
             \<or> (\<exists>b. deviceNameByPath st p = Some b \<and> trim b = []))
        \<longrightarrow> displayDeviceName st p
              = Inr (decodeStandardName (last (split CHR ''/'' (displayDevicePath p)))))
   \<and> (namingGroups (mergedDevices st) p = [] \<and> deviceNameByPath st p = None
        \<and> p \<in> set objectPrototypeKeys
        \<longrightarrow> displayDeviceName st p = Inl TypeError)
   \<and> (isTreeKey p \<longrightarrow> p \<notin> set objectPrototypeKeys)
   \<and> ((\<forall>x \<in> set (segs @ [seg]). folderSegment x) \<longrightarrow>
        isTreeKey (treeKey (segs @ [seg]))
        \<and> last (split CHR ''/'' (displayDevicePath (treeKey (segs @ [seg])))) = seg)
   \<and> decodeStandardName [] = []
   \<and> (digitValue h1 = Some i \<and> digitValue h2 = Some j \<longrightarrow>
        decodeStandardName (CHR ''$'' # h1 # h2 # s)
          = fromCharCode (16 * i + j) @ decodeStandardName s)
   \<and> (digitValue h1 = None \<or> digitValue h2 = None \<longrightarrow>
        decodeStandardName (CHR ''$'' # h1 # h2 # s)
          = CHR ''$'' # decodeStandardName (h1 # h2 # s))
   \<and> (c \<noteq> CHR ''$'' \<longrightarrow> decodeStandardName (c # s) = c # decodeStandardName s)
   \<and> (length s < 3 \<longrightarrow> decodeStandardName s = s)
   \<and> (n < 128 \<longrightarrow> fromCharCode n = [char_of n])
   \<and> (csv = None \<or> csv = Some [] \<or> col = [] \<longrightarrow>
        exportCsvWithDeviceNames st csv col rows = Inr None)
   \<and> (content \<noteq> [] \<and> col \<noteq> [] \<and> (\<forall>d \<in> set (devicePaths st). isTreeKey d)
        \<and> (\<forall>r \<in> set rows. r col \<noteq> None \<or> col \<notin> set objectPrototypeKeys)
        \<longrightarrow> exportCsvWithDeviceNames st (Some content) col rows
              = Inr (Some (map (\<lambda>r. r(''device_name'' \<mapsto> exportedName st col r)) rows))
            \<and> (\<forall>r \<in> set rows. exportDeviceName st col r = Inr (exportedName st col r)))
   \<and> (content \<noteq> [] \<and> col \<noteq> [] \<and> (\<exists>r \<in> set rows. exportDeviceName st col r = Inl TypeError)
        \<longrightarrow> exportCsvWithDeviceNames st (Some content) col rows = Inl TypeError)"
proof -
  let ?pp = "trim v"
  let ?hid = "\<exists>h \<in> set (hiddenFolderPaths st).
                getPathRelation h ?pp = Ancestor \<or> getPathRelation h ?pp = Same"
  have 1: "rec col = None \<and> col \<in> set objectPrototypeKeys \<longrightarrow>
      exportDeviceName st col rec = Inl TypeError"
    by (simp add: exportDeviceName_inherited)
  have 2: "rec col = Some v \<or> (rec col = None \<and> col \<notin> set objectPrototypeKeys \<and> v = []) \<longrightarrow>
          (?hid \<longrightarrow> exportDeviceName st col rec = Inr ''-'')
          \<and> (\<not> ?hid \<and> computeOwnerDevice ?pp (devicePaths st) = None
               \<longrightarrow> exportDeviceName st col rec = Inr [])
          \<and> (\<forall>ow. \<not> ?hid \<and> computeOwnerDevice ?pp (devicePaths st) = Some ow
               \<longrightarrow> exportDeviceName st col rec = displayDeviceName st ow)"
  proof
    assume "rec col = Some v \<or> (rec col = None \<and> col \<notin> set objectPrototypeKeys \<and> v = [])"
    then have "cellText (getProperty rec col) = Inr ?pp"
      by (rule cellText_row)
    from exportDeviceName_eq [OF this, of st]
    have e: "exportDeviceName st col rec =
       (if ?hid then Inr ''-''
        else case computeOwnerDevice ?pp (devicePaths st) of
               None \<Rightarrow> Inr []
             | Some ow \<Rightarrow> displayDeviceName st ow)"
      unfolding qualifies_def .
    show "(?hid \<longrightarrow> exportDeviceName st col rec = Inr ''-'')
          \<and> (\<not> ?hid \<and> computeOwnerDevice ?pp (devicePaths st) = None
               \<longrightarrow> exportDeviceName st col rec = Inr [])
          \<and> (\<forall>ow. \<not> ?hid \<and> computeOwnerDevice ?pp (devicePaths st) = Some ow
               \<longrightarrow> exportDeviceName st col rec = displayDeviceName st ow)"
      unfolding e by simp
  qed
  have 3: "namingGroups (mergedDevices st) p \<noteq> [] \<longrightarrow>
        displayDeviceName st p = Inr (trim (name_md (last (namingGroups (mergedDevices st) p))))"
    using displayDeviceName_merged by blast
  have 4: "namingGroups (mergedDevices st) p = [] \<and> deviceNameByPath st p = Some w \<and> trim w \<noteq> []
        \<longrightarrow> displayDeviceName st p = Inr (trim w)"
    using displayDeviceName_override by blast
  have 5: "namingGroups (mergedDevices st) p = []
        \<and> ((deviceNameByPath st p = None \<and> p \<notin> set objectPrototypeKeys)
             \<or> (\<exists>b. deviceNameByPath st p = Some b \<and> trim b = []))
        \<longrightarrow> displayDeviceName st p
              = Inr (decodeStandardName (last (split CHR ''/'' (displayDevicePath p))))"
    using displayDeviceName_leaf [of st p] by blast
  have 6: "namingGroups (mergedDevices st) p = [] \<and> deviceNameByPath st p = None
        \<and> p \<in> set objectPrototypeKeys
        \<longrightarrow> displayDeviceName st p = Inl TypeError"
    using displayDeviceName_error by blast
  have 7: "isTreeKey p \<longrightarrow> p \<notin> set objectPrototypeKeys"
    using treeKey_not_prototype by blast
  have 8: "(\<forall>x \<in> set (segs @ [seg]). folderSegment x) \<longrightarrow>
        isTreeKey (treeKey (segs @ [seg]))
        \<and> last (split CHR ''/'' (displayDevicePath (treeKey (segs @ [seg])))) = seg"
  proof
    assume f: "\<forall>x \<in> set (segs @ [seg]). folderSegment x"
    then have "isTreeKey (treeKey (segs @ [seg]))"
      unfolding isTreeKey_iff by blast
    moreover from f have "CHR ''/'' \<notin> set seg"
      by (simp add: folderSegment_def)
    then have "last (split CHR ''/'' (displayDevicePath (treeKey (segs @ [seg])))) = seg"
      by (rule leaf_treeKey)
    ultimately show "isTreeKey (treeKey (segs @ [seg]))
        \<and> last (split CHR ''/'' (displayDevicePath (treeKey (segs @ [seg])))) = seg"
      by (rule conjI)
  qed
  have 9: "decodeStandardName [] = []"
    by simp
  have 10: "digitValue h1 = Some i \<and> digitValue h2 = Some j \<longrightarrow>
        decodeStandardName (CHR ''$'' # h1 # h2 # s)
          = fromCharCode (16 * i + j) @ decodeStandardName s"
    using decodeStandardName_escape by blast
  have 11: "digitValue h1 = None \<or> digitValue h2 = None \<longrightarrow>
        decodeStandardName (CHR ''$'' # h1 # h2 # s)
          = CHR ''$'' # decodeStandardName (h1 # h2 # s)"
    using decodeStandardName_no_escape by blast
  have 12: "c \<noteq> CHR ''$'' \<longrightarrow> decodeStandardName (c # s) = c # decodeStandardName s"
    using decodeStandardName_plain by blast
  have 13: "length s < 3 \<longrightarrow> decodeStandardName s = s"
    using decodeStandardName_short by blast
  have 14: "n < 128 \<longrightarrow> fromCharCode n = [char_of n]"
    using fromCharCode_ascii by blast
  have 15: "csv = None \<or> csv = Some [] \<or> col = [] \<longrightarrow>
        exportCsvWithDeviceNames st csv col rows = Inr None"
    by (auto simp: exportCsvWithDeviceNames_def)
  have 16: "content \<noteq> [] \<and> col \<noteq> [] \<and> (\<forall>d \<in> set (devicePaths st). isTreeKey d)
        \<and> (\<forall>r \<in> set rows. r col \<noteq> None \<or> col \<notin> set objectPrototypeKeys)
        \<longrightarrow> exportCsvWithDeviceNames st (Some content) col rows
              = Inr (Some (map (\<lambda>r. r(''device_name'' \<mapsto> exportedName st col r)) rows))
            \<and> (\<forall>r \<in> set rows. exportDeviceName st col r = Inr (exportedName st col r))"
  proof (intro impI, elim conjE)
    assume a: "content \<noteq> []" "col \<noteq> []" "\<forall>d \<in> set (devicePaths st). isTreeKey d"
      "\<forall>r \<in> set rows. r col \<noteq> None \<or> col \<notin> set objectPrototypeKeys"
    have d: "\<forall>r \<in> set rows. \<exists>n. exportDeviceName st col r = Inr n"
      using a(3,4) exportDeviceName_defined by blast
    then have "\<forall>r \<in> set rows. exportDeviceName st col r = Inr (exportedName st col r)"
      by (auto simp: exportedName_def)
    with exportCsvWithDeviceNames_rows [OF a(1,2) d]
    show "exportCsvWithDeviceNames st (Some content) col rows
              = Inr (Some (map (\<lambda>r. r(''device_name'' \<mapsto> exportedName st col r)) rows))
            \<and> (\<forall>r \<in> set rows. exportDeviceName st col r = Inr (exportedName st col r))"
      by (rule conjI)
  qed
  have 17: "content \<noteq> [] \<and> col \<noteq> [] \<and> (\<exists>r \<in> set rows. exportDeviceName st col r = Inl TypeError)
        \<longrightarrow> exportCsvWithDeviceNames st (Some content) col rows = Inl TypeError"
    using exportCsvWithDeviceNames_error by blast
  show ?thesis
    unfolding Let_def
    using 1 2 3 4 5 6 7 8 9 10 11 12 13 14 15 16 17 by (intro conjI)
qed


lemma export_example_fields:
  "hiddenFolderPaths exportExampleState = [''root/H'']"
  "devicePaths exportExampleState = [''root/H'', ''root/A'', ''root/B'', ''root/My$20Folder'']"
  "deviceNameByPath exportExampleState ''root/B'' = Some ''Override B''"
  "deviceNameByPath exportExampleState ''root/My$20Folder'' = None"
  by (simp_all add: exportExampleState_def)

lemma export_example_trim:
  "trim ''root/H/anything '' = ''root/H/anything''"
  "trim ''A/p1'' = ''A/p1''"
  "trim ''B/p2'' = ''B/p2''"
  "trim (''My$20Folder'' @ [CHR 0xC2, CHR 0xA0] @ ''/p3'') = ''My$20Folder'' @ [CHR 0xC2, CHR 0xA0] @ ''/p3''"
  "trim ''Q/p4'' = ''Q/p4''"
  "trim [] = []"
  "trim '' Plant '' = ''Plant''"
  "trim ''Override B'' = ''Override B''"
  by code_simp+

lemma export_example_hidden:
  "getPathRelation ''root/H'' ''root/H/anything'' = Ancestor"
  "getPathRelation ''root/H'' ''A/p1'' = Disjoint"
  "getPathRelation ''root/H'' ''B/p2'' = Disjoint"
  "getPathRelation ''root/H'' (''My$20Folder'' @ [CHR 0xC2, CHR 0xA0] @ ''/p3'') = Disjoint"
  "getPathRelation ''root/H'' ''Q/p4'' = Disjoint"
  "getPathRelation ''root/H'' [] = Disjoint"
  by code_simp+

lemma export_example_owner:
  "computeOwnerDevice ''A/p1'' [''root/H'', ''root/A'', ''root/B'', ''root/My$20Folder'']
     = Some ''root/A''"
  "computeOwnerDevice ''B/p2'' [''root/H'', ''root/A'', ''root/B'', ''root/My$20Folder'']
     = Some ''root/B''"
  "computeOwnerDevice (''My$20Folder'' @ [CHR 0xC2, CHR 0xA0] @ ''/p3'')
     [''root/H'', ''root/A'', ''root/B'', ''root/My$20Folder''] = Some ''root/My$20Folder''"
  "computeOwnerDevice ''Q/p4'' [''root/H'', ''root/A'', ''root/B'', ''root/My$20Folder''] = None"
  "computeOwnerDevice [] [''root/H'', ''root/A'', ''root/B'', ''root/My$20Folder''] = None"
  by code_simp+

lemma export_example_groups:
  "namingGroups (mergedDevices exportExampleState) ''root/A''
     = [\<lparr>id_md = ''merged_1'', name_md = '' Plant '', memberPaths = [''root/A'']\<rparr>]"
  "namingGroups (mergedDevices exportExampleState) ''root/B'' = []"
  "namingGroups (mergedDevices exportExampleState) ''root/My$20Folder'' = []"
  by code_simp+

lemma export_example_leaf:
  "folderSegment ''My$20Folder''"
  "decodeStandardName ''My$20Folder'' = ''My Folder''"
  "digitValue CHR ''2'' = Some 2" "digitValue CHR ''0'' = Some 0"
  "list_all isTreeKey [''root/H'', ''root/A'', ''root/B'', ''root/My$20Folder'']"
  by code_simp+

theorem export_device_name_witness:
  "exportDeviceName exportExampleState ''path'' [''path'' \<mapsto> ''root/H/anything ''] = Inr ''-''
   \<and> exportDeviceName exportExampleState ''path'' [''path'' \<mapsto> ''A/p1''] = Inr ''Plant''
   \<and> exportDeviceName exportExampleState ''path'' [''path'' \<mapsto> ''B/p2''] = Inr ''Override B''
   \<and> exportDeviceName exportExampleState ''path''
        [''path'' \<mapsto> ''My$20Folder'' @ [CHR 0xC2, CHR 0xA0] @ ''/p3''] = Inr ''My Folder''
   \<and> exportDeviceName exportExampleState ''path'' [''path'' \<mapsto> ''Q/p4''] = Inr []
   \<and> exportDeviceName exportExampleState ''path'' [''other'' \<mapsto> ''x''] = Inr []
   \<and> exportDeviceName exportExampleState ''toString'' [''other'' \<mapsto> ''x''] = Inl TypeError
   \<and> decodeStandardName ''$20'' = '' ''
   \<and> exportCsvWithDeviceNames exportExampleState (Some ''csv'') ''path'' exportExampleRows
       = Inr (Some
          [[''path'' \<mapsto> ''root/H/anything '', ''device_name'' \<mapsto> ''-''],
           [''path'' \<mapsto> ''A/p1'', ''device_name'' \<mapsto> ''Plant''],
           [''path'' \<mapsto> ''B/p2'', ''device_name'' \<mapsto> ''Override B''],
           [''path'' \<mapsto> ''My$20Folder'' @ [CHR 0xC2, CHR 0xA0] @ ''/p3'',
            ''device_name'' \<mapsto> ''My Folder''],
           [''path'' \<mapsto> ''Q/p4'', ''device_name'' \<mapsto> []],
           [''other'' \<mapsto> ''x'', ''device_name'' \<mapsto> []]])"
proof -
  note inherited = export_device_name [where st = exportExampleState, THEN conjunct1]
  note row = export_device_name [where st = exportExampleState and col = "''path''", THEN conjunct2, THEN conjunct1,
      unfolded Let_def export_example_fields]
  note merged = export_device_name [where st = exportExampleState, THEN conjunct2, THEN conjunct2, THEN conjunct1]
  note override = export_device_name [where st = exportExampleState, THEN conjunct2, THEN conjunct2, THEN conjunct2, THEN conjunct1]
  note leaf = export_device_name [where st = exportExampleState, THEN conjunct2, THEN conjunct2, THEN conjunct2, THEN conjunct2, THEN conjunct1]
  note notPrototype = export_device_name [THEN conjunct2, THEN conjunct2, THEN conjunct2, THEN conjunct2, THEN conjunct2, THEN conjunct2, THEN conjunct1]
  note lastSegment = export_device_name [THEN conjunct2, THEN conjunct2, THEN conjunct2, THEN conjunct2, THEN conjunct2, THEN conjunct2, THEN conjunct2, THEN conjunct1]
  note escape = export_device_name [THEN conjunct2, THEN conjunct2, THEN conjunct2, THEN conjunct2, THEN conjunct2, THEN conjunct2, THEN conjunct2, THEN conjunct2, THEN conjunct2, THEN conjunct1]
  note ascii = export_device_name [THEN conjunct2, THEN conjunct2, THEN conjunct2, THEN conjunct2, THEN conjunct2, THEN conjunct2, THEN conjunct2, THEN conjunct2, THEN conjunct2, THEN conjunct2, THEN conjunct2, THEN conjunct2, THEN conjunct2, THEN conjunct1]
  note allRows = export_device_name
      [where st = exportExampleState and col = "''path''" and rows = exportExampleRows
         and content = "''csv''", THEN conjunct2, THEN conjunct2, THEN conjunct2, THEN conjunct2, THEN conjunct2, THEN conjunct2, THEN conjunct2, THEN conjunct2, THEN conjunct2, THEN conjunct2, THEN conjunct2, THEN conjunct2, THEN conjunct2, THEN conjunct2, THEN conjunct2, THEN conjunct1]
  have nameA: "displayDeviceName exportExampleState ''root/A'' = Inr ''Plant''"
    using merged [of "''root/A''"] by (simp add: export_example_groups export_example_trim)
  have nameB: "displayDeviceName exportExampleState ''root/B'' = Inr ''Override B''"
    using override [of "''root/B''" "''Override B''"]
    by (simp add: export_example_groups export_example_trim export_example_fields)
  have key: "treeKey ([] @ [''My$20Folder'']) = ''root/My$20Folder''"
    by (simp add: treeKey_def)
  from lastSegment [of "[]" "''My$20Folder''"]
  have tk: "isTreeKey ''root/My$20Folder''"
    and ls: "last (split CHR ''/'' (displayDevicePath ''root/My$20Folder'')) = ''My$20Folder''"
    unfolding key by (simp_all add: export_example_leaf)
  from notPrototype [of "''root/My$20Folder''"] tk
  have np: "''root/My$20Folder'' \<notin> set objectPrototypeKeys"
    by blast
  have "displayDeviceName exportExampleState ''root/My$20Folder''
      = Inr (decodeStandardName (last (split CHR ''/'' (displayDevicePath ''root/My$20Folder''))))"
    using leaf [of "''root/My$20Folder''"] np export_example_groups(3) export_example_fields(4)
    by blast
  then have nameF: "displayDeviceName exportExampleState ''root/My$20Folder'' = Inr ''My Folder''"
    unfolding ls export_example_leaf(2) .
  have 0: "exportDeviceName exportExampleState ''path'' [''path'' \<mapsto> ''root/H/anything ''] = Inr ''-''"
    using row [of "[''path'' \<mapsto> ''root/H/anything '']" "''root/H/anything ''"]
    by (simp add: export_example_trim export_example_hidden)
  have 1: "exportDeviceName exportExampleState ''path'' [''path'' \<mapsto> ''A/p1''] = Inr ''Plant''"
    using row [of "[''path'' \<mapsto> ''A/p1'']" "''A/p1''"]
    by (simp add: export_example_trim export_example_hidden export_example_owner nameA)
  have 2: "exportDeviceName exportExampleState ''path'' [''path'' \<mapsto> ''B/p2''] = Inr ''Override B''"
    using row [of "[''path'' \<mapsto> ''B/p2'']" "''B/p2''"]
    by (simp add: export_example_trim export_example_hidden export_example_owner nameB)
  have 3: "exportDeviceName exportExampleState ''path''
        [''path'' \<mapsto> ''My$20Folder'' @ [CHR 0xC2, CHR 0xA0] @ ''/p3''] = Inr ''My Folder''"
    using row [of "[''path'' \<mapsto> ''My$20Folder'' @ [CHR 0xC2, CHR 0xA0] @ ''/p3'']"
                  "''My$20Folder'' @ [CHR 0xC2, CHR 0xA0] @ ''/p3''"]
    by (simp add: export_example_trim [simplified] export_example_hidden [simplified]
        export_example_owner [simplified] nameF)
  have 4: "exportDeviceName exportExampleState ''path'' [''path'' \<mapsto> ''Q/p4''] = Inr []"
    using row [of "[''path'' \<mapsto> ''Q/p4'']" "''Q/p4''"]
    by (simp add: export_example_trim export_example_hidden export_example_owner)
  have 5: "exportDeviceName exportExampleState ''path'' [''other'' \<mapsto> ''x''] = Inr []"
    using row [of "[''other'' \<mapsto> ''x'']" "[]"]
    by (simp add: export_example_trim export_example_hidden export_example_owner
        objectPrototypeKeys_def)
  have 6: "exportDeviceName exportExampleState ''toString'' [''other'' \<mapsto> ''x''] = Inl TypeError"
    using inherited [of "[''other'' \<mapsto> ''x'']" "''toString''"]
    by (simp add: objectPrototypeKeys_def)
  have "decodeStandardName ''$20'' = fromCharCode (16 * 2 + 0) @ decodeStandardName []"
    using escape [of "CHR ''2''" 2 "CHR ''0''" 0 "[]"] export_example_leaf(3,4) by blast
  moreover have "fromCharCode (16 * 2 + 0) = [char_of (32 :: nat)]"
    using ascii [of "16 * 2 + 0"] by simp
  moreover have "char_of (32 :: nat) = CHR '' ''"
    by code_simp
  ultimately have 7: "decodeStandardName ''$20'' = '' ''"
    by (simp del: decodeStandardName.simps(1,2))
  have devs: "\<forall>d \<in> set (devicePaths exportExampleState). isTreeKey d"
    using export_example_leaf(5) by (simp add: export_example_fields)
  have "''path'' \<notin> set objectPrototypeKeys"
    by (simp add: objectPrototypeKeys_def)
  then have cols: "\<forall>r \<in> set exportExampleRows. r ''path'' \<noteq> None \<or> ''path'' \<notin> set objectPrototypeKeys"
    by blast
  have pre: "''csv'' \<noteq> [] \<and> ''path'' \<noteq> []
      \<and> (\<forall>d \<in> set (devicePaths exportExampleState). isTreeKey d)
      \<and> (\<forall>r \<in> set exportExampleRows. r ''path'' \<noteq> None \<or> ''path'' \<notin> set objectPrototypeKeys)"
  proof (intro conjI)
    show "''csv'' \<noteq> []" by simp
    show "''path'' \<noteq> []" by simp
    show "\<forall>d \<in> set (devicePaths exportExampleState). isTreeKey d" by (rule devs)
    show "\<forall>r \<in> set exportExampleRows. r ''path'' \<noteq> None \<or> ''path'' \<notin> set objectPrototypeKeys"
      by (rule cols)
  qed
  from allRows [THEN mp, OF pre]
  have out: "exportCsvWithDeviceNames exportExampleState (Some ''csv'') ''path'' exportExampleRows
      = Inr (Some (map (\<lambda>r. r(''device_name'' \<mapsto> exportedName exportExampleState ''path'' r))
                     exportExampleRows))"
    by (rule conjunct1)
  have names: "exportedName exportExampleState ''path'' [''path'' \<mapsto> ''root/H/anything ''] = ''-''"
    "exportedName exportExampleState ''path'' [''path'' \<mapsto> ''A/p1''] = ''Plant''"
    "exportedName exportExampleState ''path'' [''path'' \<mapsto> ''B/p2''] = ''Override B''"
    "exportedName exportExampleState ''path''
        [''path'' \<mapsto> ''My$20Folder'' @ [CHR 0xC2, CHR 0xA0] @ ''/p3''] = ''My Folder''"
    "exportedName exportExampleState ''path'' [''path'' \<mapsto> ''Q/p4''] = []"
    "exportedName exportExampleState ''path'' [''other'' \<mapsto> ''x''] = []"
    by (simp_all only: exportedName_def 0 1 2 3 4 5 sum.case)
  have 8: "exportCsvWithDeviceNames exportExampleState (Some ''csv'') ''path'' exportExampleRows
       = Inr (Some
          [[''path'' \<mapsto> ''root/H/anything '', ''device_name'' \<mapsto> ''-''],
           [''path'' \<mapsto> ''A/p1'', ''device_name'' \<mapsto> ''Plant''],
           [''path'' \<mapsto> ''B/p2'', ''device_name'' \<mapsto> ''Override B''],
           [''path'' \<mapsto> ''My$20Folder'' @ [CHR 0xC2, CHR 0xA0] @ ''/p3'',
            ''device_name'' \<mapsto> ''My Folder''],
           [''path'' \<mapsto> ''Q/p4'', ''device_name'' \<mapsto> []],
           [''other'' \<mapsto> ''x'', ''device_name'' \<mapsto> []]])"
  proof -
    have "map (\<lambda>r. r(''device_name'' \<mapsto> exportedName exportExampleState ''path'' r))
              exportExampleRows
        = [[''path'' \<mapsto> ''root/H/anything '', ''device_name'' \<mapsto> ''-''],
           [''path'' \<mapsto> ''A/p1'', ''device_name'' \<mapsto> ''Plant''],
           [''path'' \<mapsto> ''B/p2'', ''device_name'' \<mapsto> ''Override B''],
           [''path'' \<mapsto> ''My$20Folder'' @ [CHR 0xC2, CHR 0xA0] @ ''/p3'',
            ''device_name'' \<mapsto> ''My Folder''],
           [''path'' \<mapsto> ''Q/p4'', ''device_name'' \<mapsto> []],
           [''other'' \<mapsto> ''x'', ''device_name'' \<mapsto> []]]"
      unfolding exportExampleRows_def list.map names by (rule refl)
    with out show ?thesis by (simp only:)
  qed
  from 0 1 2 3 4 5 6 7 8 show ?thesis
    by (intro conjI)
qed

end
